theory Spec2Isabelle
  imports Complex_Main "HOL-Library.Sublist"
begin

section \<open>Stopwatch context: laps\<close>

text \<open>
  The front end's lap record (\<^verbatim>\<open>interface Lap { id; time; lapTime }\<close> of the stopwatch
  context). The fields are prefixed because \<open>id\<close> and \<open>time\<close> are taken: \<open>lap_id\<close> is
  \<^verbatim>\<open>id\<close>, \<open>lap_total\<close> is \<^verbatim>\<open>time\<close> (the clock value in milliseconds when the lap was
  taken) and \<open>lap_delta\<close> is \<^verbatim>\<open>lapTime\<close>.
\<close>

record Lap =
  lap_id :: int
  lap_total :: int
  lap_delta :: int

text \<open>
  A number of seconds as the program holds it, an IEEE double. \<open>Div1000 n\<close> is the double
  that the JavaScript expression \<^verbatim>\<open>n / 1000\<close> evaluates to for the integer \<open>n\<close>, a count
  of milliseconds. The model never computes with these values: a difference or a sum of
  two of them is a rounded result that need not be the quotient of the difference or sum
  of the counts.
\<close>

datatype seconds = Div1000 int

text \<open>The body of \<^verbatim>\<open>stopwatchAPI.addLap\<close>'s request (\<^verbatim>\<open>interface LapCreate\<close>).\<close>

record LapCreate =
  lap_time :: seconds
  total_time :: seconds

text \<open>The four \<^verbatim>\<open>useState\<close> cells of \<^verbatim>\<open>StopwatchProvider\<close>.\<close>

record stopwatch =
  time :: int
  isRunning :: bool
  laps :: "Lap list"
  lastLapTime :: int

definition stopwatch_init :: stopwatch where
  "stopwatch_init = \<lparr>time = 0, isRunning = False, laps = [], lastLapTime = 0\<rparr>"

text \<open>
  \<^verbatim>\<open>addLap\<close> awaits the back end. What its closure holds across the \<^verbatim>\<open>await\<close> are the
  values of the render in which the button was pressed: \<^verbatim>\<open>time\<close>, the \<^verbatim>\<open>lapTime\<close> computed
  from it and from \<^verbatim>\<open>lastLapTime\<close>, and \<^verbatim>\<open>laps.length\<close>.
\<close>

record lap_press =
  press_time :: int
  press_lapTime :: int
  press_count :: nat

text \<open>
  The part of \<^verbatim>\<open>addLap\<close> before the \<^verbatim>\<open>await\<close>: at a clock that is not positive nothing is
  sent and nothing is recorded.
\<close>

definition addLap_begin :: "stopwatch \<Rightarrow> lap_press option" where
  "addLap_begin s =
     (if time s > 0
      then Some \<lparr>press_time = time s, press_lapTime = time s - lastLapTime s,
                 press_count = length (laps s)\<rparr>
      else None)"

text \<open>The request \<^verbatim>\<open>addLap\<close> sends to the back end.\<close>

definition addLap_request :: "lap_press \<Rightarrow> LapCreate" where
  "addLap_request c =
     \<lparr>lap_time = Div1000 (press_lapTime c), total_time = Div1000 (press_time c)\<rparr>"

text \<open>
  The part of \<^verbatim>\<open>addLap\<close> after the \<^verbatim>\<open>await\<close>, applied to the state as it is then: \<open>resp\<close>
  is \<open>Some i\<close> when the back end answered with a lap whose id is \<open>i\<close>, and \<open>None\<close> when the
  call threw and the \<^verbatim>\<open>catch\<close> branch numbers the lap with the \<^verbatim>\<open>laps.length + 1\<close> of the
  closure. Both branches put the lap in front (\<^verbatim>\<open>setLaps(prev => [localLap, ...prev])\<close>)
  and store the closure's \<^verbatim>\<open>time\<close> as \<^verbatim>\<open>lastLapTime\<close>.
\<close>

definition addLap_finish :: "int option \<Rightarrow> lap_press \<Rightarrow> stopwatch \<Rightarrow> stopwatch" where
  "addLap_finish resp c s =
     s\<lparr>laps := \<lparr>lap_id = (case resp of Some newId \<Rightarrow> newId | None \<Rightarrow> int (press_count c) + 1),
                 lap_total = press_time c, lap_delta = press_lapTime c\<rparr> # laps s,
       lastLapTime := press_time c\<rparr>"

text \<open>
  \<^verbatim>\<open>addLap\<close> when nothing else happens during the \<^verbatim>\<open>await\<close>. The argument \<open>resp\<close> is the
  outcome of the awaited call: \<open>Some i\<close> when the back end answered with a lap whose id is
  \<open>i\<close>, \<open>None\<close> when the call threw and the \<^verbatim>\<open>catch\<close> branch numbers the lap locally with
  \<^verbatim>\<open>laps.length + 1\<close>.
\<close>

definition addLap :: "int option \<Rightarrow> stopwatch \<Rightarrow> stopwatch" where
  "addLap resp s =
     (if time s > 0 then
        let lapTime = time s - lastLapTime s;
            localLap = (case resp of
                Some newId \<Rightarrow> \<lparr>lap_id = newId, lap_total = time s, lap_delta = lapTime\<rparr>
              | None \<Rightarrow> \<lparr>lap_id = int (length (laps s)) + 1, lap_total = time s,
                          lap_delta = lapTime\<rparr>)
        in s\<lparr>laps := localLap # laps s, lastLapTime := time s\<rparr>
      else s)"

text \<open>
  \<^verbatim>\<open>reset\<close>: the clock, the running flag and the last lap time are cleared at once; the
  laps are cleared after the \<^verbatim>\<open>await\<close>, and only when \<^verbatim>\<open>stopwatchAPI.clearLaps\<close> succeeded
  (\<open>ok\<close>).
\<close>

definition reset_begin :: "stopwatch \<Rightarrow> stopwatch" where
  "reset_begin s = s\<lparr>isRunning := False, time := 0, lastLapTime := 0\<rparr>"

definition reset_finish :: "bool \<Rightarrow> stopwatch \<Rightarrow> stopwatch" where
  "reset_finish ok s = (if ok then s\<lparr>laps := []\<rparr> else s)"

definition reset :: "bool \<Rightarrow> stopwatch \<Rightarrow> stopwatch" where
  "reset ok s =
     (let s1 = s\<lparr>isRunning := False, time := 0, lastLapTime := 0\<rparr>
      in if ok then s1\<lparr>laps := []\<rparr> else s1)"

text \<open>Taking one lap at each of the clock values \<open>ts\<close>, in that order.\<close>

fun take_laps :: "(int \<times> int option) list \<Rightarrow> stopwatch \<Rightarrow> stopwatch" where
  "take_laps [] s = s"
| "take_laps ((t, r) # xs) s = take_laps xs (addLap r (s\<lparr>time := t\<rparr>))"

subsection \<open>The back end's side of a lap, and the statistics\<close>

text \<open>
  \<^verbatim>\<open>interface Lap\<close> of the API client (imported as \<^verbatim>\<open>APILap\<close>): what the back end stores
  for a request, in seconds. The \<^verbatim>\<open>timestamp\<close> string is left out.
\<close>

record APILap = LapCreate +
  api_id :: int
  lap_number :: int

text \<open>
  Modelled from the spec: the lap adapter of the back end, which is not among the
  sources. Its policy is \<^verbatim>\<open>insert_at_beginning\<close>: the newest lap becomes the head of the
  enumeration. The numbering of the stored lap is not fixed by the spec; the model counts
  from one, and nothing below depends on it.
\<close>

definition backend_addLap :: "LapCreate \<Rightarrow> APILap list \<Rightarrow> APILap list" where
  "backend_addLap req ls =
     \<lparr>lap_time = lap_time req, total_time = total_time req,
      api_id = int (length ls) + 1, lap_number = int (length ls) + 1\<rparr> # ls"







subsection \<open>The provider and the back end together\<close>

text \<open>
  A request of the provider that the back end has not answered yet, and how the back end
  deals with a request: it carries it out and answers, it refuses it (the awaited call
  throws and the collection is unchanged), or it carries it out and the answer does not
  arrive (the awaited call throws all the same).
\<close>

datatype request = LapPosted lap_press | ClearPosted

datatype outcome = Accepted | Refused | AnswerLost

text \<open>
  The provider, the back end's lap collection (newest first) and the requests in flight,
  oldest first.
\<close>

record session =
  sw :: stopwatch
  backend :: "APILap list"
  inflight :: "request list"

definition session_init :: session where
  "session_init = \<lparr>sw = stopwatch_init, backend = [], inflight = []\<rparr>"

text \<open>
  Modelled from the spec: what the back end does on \<^verbatim>\<open>clearLaps\<close> (absent from the
  sources), the \<^verbatim>\<open>clear\<close> of the list: no lap is left.
\<close>

definition backend_clearLaps :: "APILap list \<Rightarrow> APILap list" where
  "backend_clearLaps ls = []"

text \<open>
  What happens to the provider: the interval stores an elapsed time (\<^verbatim>\<open>setTime\<close>), the lap
  button or the reset button is pressed, or the oldest request in flight is answered. A
  lap that the back end stores is answered with its id.
\<close>

datatype sw_event = Clock int | LapPressed | ResetPressed | Answered outcome

fun session_step :: "sw_event \<Rightarrow> session \<Rightarrow> session" where
  "session_step (Clock t) st = st\<lparr>sw := (sw st)\<lparr>time := t\<rparr>\<rparr>"
| "session_step LapPressed st =
     (case addLap_begin (sw st) of
        None \<Rightarrow> st
      | Some c \<Rightarrow> st\<lparr>inflight := inflight st @ [LapPosted c]\<rparr>)"
| "session_step ResetPressed st =
     st\<lparr>sw := reset_begin (sw st), inflight := inflight st @ [ClearPosted]\<rparr>"
| "session_step (Answered out) st =
     (case inflight st of
        [] \<Rightarrow> st
      | LapPosted c # rest \<Rightarrow>
          (let db = (if out = Refused then backend st
                     else backend_addLap (addLap_request c) (backend st));
               resp = (if out = Accepted then Some (api_id (hd db)) else None)
           in \<lparr>sw = addLap_finish resp c (sw st), backend = db, inflight = rest\<rparr>)
      | ClearPosted # rest \<Rightarrow>
          \<lparr>sw = reset_finish (out = Accepted) (sw st),
           backend = (if out = Refused then backend st else backend_clearLaps (backend st)),
           inflight = rest\<rparr>)"

definition session_run :: "sw_event list \<Rightarrow> session \<Rightarrow> session" where
  "session_run evs st = fold session_step evs st"

text \<open>A button is pressed only when no request is in flight.\<close>

fun is_press :: "sw_event \<Rightarrow> bool" where
  "is_press LapPressed = True"
| "is_press ResetPressed = True"
| "is_press _ = False"

fun one_at_a_time :: "sw_event list \<Rightarrow> session \<Rightarrow> bool" where
  "one_at_a_time [] st = True"
| "one_at_a_time (ev # evs) st =
     ((is_press ev \<longrightarrow> inflight st = []) \<and> one_at_a_time evs (session_step ev st))"








text \<open>The clock values that were recorded: a press at a clock that is not positive is ignored.\<close>

definition recorded :: "int list \<Rightarrow> int list" where
  "recorded ts = filter (\<lambda>t. 0 < t) ts"




definition overlapping_session :: "sw_event list" where
  "overlapping_session =
     [Clock 1000, LapPressed, Clock 1500, LapPressed, Answered Accepted, Answered Accepted]"


section \<open>The alarms component\<close>

text \<open>
  \<^verbatim>\<open>interface Alarm\<close> of the API client. \<open>alarm_id\<close> is the field \<^verbatim>\<open>id\<close> and \<open>alarm_time\<close>
  the field \<^verbatim>\<open>time\<close>, a string such as \<^verbatim>\<open>"07:30"\<close>. Strings are lists of code units; a code
  unit outside ASCII is written by its number (\<open>CHR 0xE9\<close> is the e with acute accent).
\<close>

record Alarm =
  alarm_id :: int
  alarm_time :: string
  label :: string
  enabled :: bool
  days :: "string list"
  created_at :: string

text \<open>
  The outcome of an awaited call to the back end: its answer, or the message of the error
  that \<^verbatim>\<open>fetchAPI\<close> threw.
\<close>

datatype 'a api_result = Ok 'a | Threw string

text \<open>The cells of \<^verbatim>\<open>Alarms\<close> that loading and adding touch.\<close>

record alarms_view =
  alarms :: "Alarm list"
  isLoading :: bool
  showAddForm :: bool
  newAlarmTime :: string
  newAlarmLabel :: string
  newAlarmDays :: "string list"

text \<open>\<^verbatim>\<open>interface AlarmCreate\<close>, with the four fields the component always sends.\<close>

record AlarmCreate =
  create_time :: string
  create_label :: string
  create_enabled :: bool
  create_days :: "string list"

definition handleAddAlarm_request :: "alarms_view \<Rightarrow> AlarmCreate" where
  "handleAddAlarm_request v =
     \<lparr>create_time = newAlarmTime v,
      create_label = (if newAlarmLabel v = [] then ''Nueva Alarma'' else newAlarmLabel v),
      create_enabled = True, create_days = newAlarmDays v\<rparr>"

text \<open>
  \<^verbatim>\<open>loadAlarms\<close>: the list becomes whatever \<^verbatim>\<open>alarmsAPI.getAll\<close> returned, in the back end's
  order; a failed call leaves it as it was.
\<close>

definition loadAlarms :: "Alarm list api_result \<Rightarrow> alarms_view \<Rightarrow> alarms_view" where
  "loadAlarms resp v =
     (case resp of Ok alarmsData \<Rightarrow> v\<lparr>alarms := alarmsData, isLoading := False\<rparr>
      | Threw _ \<Rightarrow> v\<lparr>isLoading := False\<rparr>)"

text \<open>
  \<^verbatim>\<open>handleAddAlarm\<close>: \<^verbatim>\<open>setAlarms([...alarms, newAlarm])\<close> with the alarm the back end
  answered, and the form is cleared; nothing happens for an empty time, nor when the call
  threw (an alert is shown).
\<close>

definition handleAddAlarm :: "Alarm api_result \<Rightarrow> alarms_view \<Rightarrow> alarms_view" where
  "handleAddAlarm resp v =
     (if newAlarmTime v = [] then v
      else case resp of
        Ok newAlarm \<Rightarrow>
          v\<lparr>alarms := alarms v @ [newAlarm], showAddForm := False, newAlarmTime := ''08:00'',
            newAlarmLabel := [], newAlarmDays := []\<rparr>
      | Threw _ \<Rightarrow> v)"

text \<open>
  Modelled from the spec: the sort key of the alarm adapter (absent from the sources), "the
  alarm's scheduled time-of-day (a fixed-format, e.g. minutes-since-midnight, so comparison
  is numeric)". A string that is not two digits, a colon and two digits has no key.
\<close>

definition is_digit :: "char \<Rightarrow> bool" where
  "is_digit c = (48 \<le> (of_char c :: nat) \<and> (of_char c :: nat) \<le> 57)"

definition digit_val :: "char \<Rightarrow> nat" where
  "digit_val c = of_char c - 48"

fun minutes_since_midnight :: "string \<Rightarrow> nat option" where
  "minutes_since_midnight [a, b, c, d, e] =
     (if is_digit a \<and> is_digit b \<and> c = CHR '':'' \<and> is_digit d \<and> is_digit e
      then Some ((10 * digit_val a + digit_val b) * 60 + 10 * digit_val d + digit_val e)
      else None)"
| "minutes_since_midnight _ = None"

text \<open>The enumeration is non-decreasing under the key (and every time has a key).\<close>

fun nondecreasing :: "nat option list \<Rightarrow> bool" where
  "nondecreasing [] = True"
| "nondecreasing [k] = (k \<noteq> None)"
| "nondecreasing (k # k' # ks) =
     (case (k, k') of (Some a, Some b) \<Rightarrow> a \<le> b \<and> nondecreasing (k' # ks) | _ \<Rightarrow> False)"

definition sorted_by_time :: "Alarm list \<Rightarrow> bool" where
  "sorted_by_time als = nondecreasing (map (minutes_since_midnight \<circ> alarm_time) als)"


section \<open>The timezone selector\<close>

text \<open>\<^verbatim>\<open>interface Timezone\<close> and \<^verbatim>\<open>interface FavoriteTimezone\<close> of the API client.\<close>

record Timezone =
  tz_id :: string
  tz_country :: string
  tz_city :: string
  tz_offset :: string
  is_favorite :: bool

record FavoriteTimezone =
  fav_id :: string
  fav_country :: string
  fav_city :: string
  fav_offset :: string
  fav_order :: int

definition DEFAULT_TIMEZONE :: FavoriteTimezone where
  "DEFAULT_TIMEZONE =
     \<lparr>fav_id = ''colombia-bogota'', fav_country = ''Colombia'', fav_city = ''Bogot'' @ [CHR 0xE1],
      fav_offset = ''UTC-5'', fav_order = - 1\<rparr>"

text \<open>
  The cells of \<^verbatim>\<open>TimezoneSelector\<close>, followed by what the component writes outside itself:
  \<open>stored_active\<close> is the \<^verbatim>\<open>activeTimezoneId\<close> entry of \<^verbatim>\<open>localStorage\<close> and \<open>reported\<close> the
  argument of the last call of \<^verbatim>\<open>onActiveTimezoneChange\<close>. The list of countries and the
  clock displays are left out; no operation below reads them.
\<close>

record selector =
  availableTimezones :: "Timezone list"
  favoriteTimezones :: "FavoriteTimezone list"
  selectedCountry :: string
  selectedCity :: string
  activeTimezoneId :: "string option"
  error :: "string option"
  stored_active :: "string option"
  reported :: "FavoriteTimezone option"

definition selector_init :: "string option \<Rightarrow> selector" where
  "selector_init stored =
     \<lparr>availableTimezones = [], favoriteTimezones = [], selectedCountry = [], selectedCity = [],
      activeTimezoneId = None, error = None, stored_active = stored, reported = None\<rparr>"

text \<open>\<^verbatim>\<open>saveActiveTimezone\<close> writes only an id that is not the empty string.\<close>

definition saveActiveTimezone :: "string \<Rightarrow> selector \<Rightarrow> selector" where
  "saveActiveTimezone timezoneId st =
     (if timezoneId \<noteq> [] then st\<lparr>stored_active := Some timezoneId\<rparr> else st)"

text \<open>
  \<^verbatim>\<open>loadInitialData\<close>. Each of the two calls has its own \<^verbatim>\<open>try\<close>: a call that threw
  leaves its list empty. The favourites shown are the default followed by the back end's.
\<close>

definition loadInitialData ::
  "Timezone list api_result \<Rightarrow> FavoriteTimezone list api_result \<Rightarrow> selector \<Rightarrow> selector" where
  "loadInitialData tzResp favResp st =
     (let timezones = (case tzResp of Ok tzs \<Rightarrow> tzs | Threw _ \<Rightarrow> []);
          favorites = (case favResp of Ok fs \<Rightarrow> fs | Threw _ \<Rightarrow> []);
          allFavorites = DEFAULT_TIMEZONE # favorites;
          st1 = st\<lparr>error := None, availableTimezones := timezones,
                    favoriteTimezones := allFavorites\<rparr>
      in case stored_active st of
           None \<Rightarrow> st1\<lparr>activeTimezoneId := Some (fav_id DEFAULT_TIMEZONE),
                       reported := Some DEFAULT_TIMEZONE\<rparr>
         | Some savedActiveId \<Rightarrow>
             (if savedActiveId \<noteq> [] \<and> (\<exists>fav \<in> set allFavorites. fav_id fav = savedActiveId)
              then st1\<lparr>activeTimezoneId := Some savedActiveId,
                        reported := find (\<lambda>fav. fav_id fav = savedActiveId) allFavorites\<rparr>
              else st1\<lparr>activeTimezoneId := Some (fav_id DEFAULT_TIMEZONE),
                        reported := Some DEFAULT_TIMEZONE\<rparr>))"

text \<open>
  \<^verbatim>\<open>handleAddFavorite\<close>. \<open>resp\<close> is the outcome of \<^verbatim>\<open>timezonesAPI.addFavorite\<close>; it is
  consulted only when the selection names an available timezone that is not among the
  favourites yet.
\<close>

definition handleAddFavorite :: "FavoriteTimezone api_result \<Rightarrow> selector \<Rightarrow> selector" where
  "handleAddFavorite resp st =
     (if selectedCountry st = [] \<or> selectedCity st = [] then st
      else case find (\<lambda>tz. tz_country tz = selectedCountry st \<and> tz_city tz = selectedCity st)
                  (availableTimezones st) of
        None \<Rightarrow> st\<lparr>error := Some ''Zona horaria no encontrada''\<rparr>
      | Some timezone \<Rightarrow>
          if \<exists>fav \<in> set (favoriteTimezones st). fav_id fav = tz_id timezone
          then st\<lparr>error := Some (''Esta zona horaria ya est'' @ [CHR 0xE1] @ '' en favoritos'')\<rparr>
          else case resp of
            Threw msg \<Rightarrow>
              st\<lparr>error := Some (if msg = [] then ''Error al agregar zona horaria'' else msg)\<rparr>
          | Ok newFavorite \<Rightarrow>
              saveActiveTimezone (fav_id newFavorite)
                (st\<lparr>favoriteTimezones :=
                       DEFAULT_TIMEZONE #
                       filter (\<lambda>f. fav_id f \<noteq> fav_id DEFAULT_TIMEZONE) (favoriteTimezones st) @
                       [newFavorite],
                     activeTimezoneId := Some (fav_id newFavorite)\<rparr>)
                \<lparr>reported := Some newFavorite, selectedCountry := [], selectedCity := [],
                 error := None\<rparr>)"

text \<open>
  \<^verbatim>\<open>handleRemoveFavorite\<close>. \<open>ok\<close> tells whether \<^verbatim>\<open>timezonesAPI.removeFavorite\<close> succeeded;
  the call is not made for the default timezone.
\<close>

definition handleRemoveFavorite :: "string \<Rightarrow> bool \<Rightarrow> selector \<Rightarrow> selector" where
  "handleRemoveFavorite timezoneId ok st =
     (if timezoneId = fav_id DEFAULT_TIMEZONE
      then st\<lparr>error := Some ''No puedes eliminar la zona horaria de Colombia''\<rparr>
      else if ok then
        let st1 = st\<lparr>favoriteTimezones :=
                       filter (\<lambda>fav. fav_id fav \<noteq> timezoneId) (favoriteTimezones st)\<rparr>
        in if activeTimezoneId st = Some timezoneId
           then saveActiveTimezone (fav_id DEFAULT_TIMEZONE)
                  (st1\<lparr>activeTimezoneId := Some (fav_id DEFAULT_TIMEZONE)\<rparr>)
                  \<lparr>reported := Some DEFAULT_TIMEZONE\<rparr>
           else st1
      else st\<lparr>error := Some ''Error al eliminar zona horaria''\<rparr>)"

definition handleSetActiveTimezone :: "string \<Rightarrow> selector \<Rightarrow> selector" where
  "handleSetActiveTimezone timezoneId st =
     (let st1 = saveActiveTimezone timezoneId (st\<lparr>activeTimezoneId := Some timezoneId\<rparr>)
      in case find (\<lambda>fav. fav_id fav = timezoneId) (favoriteTimezones st) of
           Some timezone \<Rightarrow> st1\<lparr>reported := Some timezone\<rparr>
         | None \<Rightarrow> st1)"

text \<open>
  What the user and the timers can do once the component is mounted: choose a country or
  a city in the dropdowns, press the add button, press a card's remove button, click a
  card, and the timer that clears the error message.
\<close>

datatype selector_event =
    SelectCountry string
  | SelectCity string
  | AddFavorite "FavoriteTimezone api_result"
  | RemoveFavorite string bool
  | SetActive string
  | ClearError

fun selector_step :: "selector_event \<Rightarrow> selector \<Rightarrow> selector" where
  "selector_step (SelectCountry c) st = st\<lparr>selectedCountry := c, selectedCity := [], error := None\<rparr>"
| "selector_step (SelectCity c) st = st\<lparr>selectedCity := c, error := None\<rparr>"
| "selector_step (AddFavorite resp) st = handleAddFavorite resp st"
| "selector_step (RemoveFavorite i ok) st = handleRemoveFavorite i ok st"
| "selector_step (SetActive i) st = handleSetActiveTimezone i st"
| "selector_step ClearError st = st\<lparr>error := None\<rparr>"

definition selector_run :: "selector_event list \<Rightarrow> selector \<Rightarrow> selector" where
  "selector_run evs st = fold selector_step evs st"

text \<open>
  The selection names an available timezone that is not a favourite yet, so that
  \<^verbatim>\<open>handleAddFavorite\<close> reaches the call to the back end.
\<close>

definition addable :: "selector \<Rightarrow> bool" where
  "addable st =
     (selectedCountry st \<noteq> [] \<and> selectedCity st \<noteq> [] \<and>
      (case find (\<lambda>tz. tz_country tz = selectedCountry st \<and> tz_city tz = selectedCity st)
              (availableTimezones st) of
         None \<Rightarrow> False
       | Some timezone \<Rightarrow> \<not> (\<exists>fav \<in> set (favoriteTimezones st). fav_id fav = tz_id timezone)))"

text \<open>The default timezone heads the favourites and no other favourite carries its id.\<close>

definition default_pinned :: "FavoriteTimezone list \<Rightarrow> bool" where
  "default_pinned favs =
     (case favs of [] \<Rightarrow> False
      | f # fs \<Rightarrow> f = DEFAULT_TIMEZONE \<and> (\<forall>g \<in> set fs. fav_id g \<noteq> fav_id DEFAULT_TIMEZONE))"

definition non_default :: "FavoriteTimezone list \<Rightarrow> FavoriteTimezone list" where
  "non_default favs = filter (\<lambda>f. fav_id f \<noteq> fav_id DEFAULT_TIMEZONE) favs"

text \<open>
  A favourite, and an event of the selector, that does not bring in the id of the default
  timezone: for an event, the favourite that the back end answers to an addition.
\<close>

definition foreign :: "FavoriteTimezone \<Rightarrow> bool" where
  "foreign f = (fav_id f \<noteq> fav_id DEFAULT_TIMEZONE)"

fun foreign_answer :: "selector_event \<Rightarrow> bool" where
  "foreign_answer (AddFavorite (Ok nf)) = foreign nf"
| "foreign_answer _ = True"

text \<open>The default timezone is the first favourite shown.\<close>

definition default_first :: "selector \<Rightarrow> bool" where
  "default_first st = (case favoriteTimezones st of [] \<Rightarrow> False | f # _ \<Rightarrow> f = DEFAULT_TIMEZONE)"

text \<open>
  Example data: a selector that has loaded one favourite from the back end and in which the
  user has selected Paris; then the same with Tokyo made the active timezone.
\<close>

definition tokyo :: FavoriteTimezone where
  "tokyo = \<lparr>fav_id = ''japon-tokyo'', fav_country = ''Japon'', fav_city = ''Tokyo'',
            fav_offset = ''UTC+9'', fav_order = 0\<rparr>"

definition paris :: FavoriteTimezone where
  "paris = \<lparr>fav_id = ''francia-paris'', fav_country = ''Francia'', fav_city = ''Paris'',
            fav_offset = ''UTC+1'', fav_order = 1\<rparr>"

definition paris_tz :: Timezone where
  "paris_tz = \<lparr>tz_id = ''francia-paris'', tz_country = ''Francia'', tz_city = ''Paris'',
               tz_offset = ''UTC+1'', is_favorite = False\<rparr>"

definition two_favorites :: selector where
  "two_favorites =
     selector_run [SelectCountry ''Francia'', SelectCity ''Paris'']
       (loadInitialData (Ok [paris_tz]) (Ok [tokyo]) (selector_init None))"

text \<open>
  The same selector when the back end's favourites hold, after Tokyo, an entry that carries
  the id of the default timezone.
\<close>

definition bogota_dc :: FavoriteTimezone where
  "bogota_dc = \<lparr>fav_id = ''colombia-bogota'', fav_country = ''Colombia'', fav_city = ''Bogota DC'',
                fav_offset = ''UTC-5'', fav_order = 1\<rparr>"

definition duplicate_loaded :: selector where
  "duplicate_loaded =
     selector_run [SelectCountry ''Francia'', SelectCity ''Paris'']
       (loadInitialData (Ok [paris_tz]) (Ok [tokyo, bogota_dc]) (selector_init None))"

definition tokyo_active :: selector where
  "tokyo_active = handleSetActiveTimezone ''japon-tokyo'' two_favorites"


section \<open>The alarm context\<close>

subsection \<open>Time strings\<close>

text \<open>\<^verbatim>\<open>n.toString().padStart(2, '0')\<close> for a natural number.\<close>

definition digit_char :: "nat \<Rightarrow> char" where
  "digit_char n = char_of (48 + n mod 10)"

fun toString :: "nat \<Rightarrow> string" where
  "toString n = (if n < 10 then [digit_char n] else toString (n div 10) @ [digit_char n])"

definition pad2 :: "nat \<Rightarrow> string" where
  "pad2 n = (let s = toString n in if length s < 2 then replicate (2 - length s) CHR ''0'' @ s else s)"

definition hhmm :: "nat \<Rightarrow> nat \<Rightarrow> string" where
  "hhmm h m = pad2 h @ '':'' @ pad2 m"

text \<open>The table of \<^verbatim>\<open>lib/timezone-map.ts\<close> and \<^verbatim>\<open>toIANATimezone\<close>.\<close>

definition TIMEZONE_MAP :: "(string \<times> string) list" where
  "TIMEZONE_MAP = [
      (''colombia-bogota'', ''America/Bogota''),
      (''estados-unidos-new-york'', ''America/New_York''),
      (''estados-unidos-los-angeles'', ''America/Los_Angeles''),
      (''estados-unidos-chicago'', ''America/Chicago''),
      (''canada-toronto'', ''America/Toronto''),
      (''mexico-ciudad-de-mexico'', ''America/Mexico_City''),
      (''brasil-sao-paulo'', ''America/Sao_Paulo''),
      (''argentina-buenos-aires'', ''America/Argentina/Buenos_Aires''),
      (''chile-santiago'', ''America/Santiago''),
      (''peru-lima'', ''America/Lima''),
      (''reino-unido-londres'', ''Europe/London''),
      (''francia-paris'', ''Europe/Paris''),
      (''alemania-berlin'', ''Europe/Berlin''),
      (''espana-madrid'', ''Europe/Madrid''),
      (''italia-roma'', ''Europe/Rome''),
      (''rusia-moscu'', ''Europe/Moscow''),
      (''paises-bajos-amsterdam'', ''Europe/Amsterdam''),
      (''japon-tokyo'', ''Asia/Tokyo''),
      (''china-beijing'', ''Asia/Shanghai''),
      (''india-new-delhi'', ''Asia/Kolkata''),
      (''emiratos-arabes-unidos-dubai'', ''Asia/Dubai''),
      (''australia-sydney'', ''Australia/Sydney''),
      (''nueva-zelanda-auckland'', ''Pacific/Auckland''),
      (''fiyi-fiji'', ''Pacific/Fiji''),
      (''egipto-cairo'', ''Africa/Cairo''),
      (''sudafrica-johannesburg'', ''Africa/Johannesburg'')]"

text \<open>
  \<^verbatim>\<open>TIMEZONE_MAP\<close> is an object literal, so a lookup also finds the properties that every
  object inherits from \<^verbatim>\<open>Object.prototype\<close>; their values are functions or objects, which
  are truthy and are not strings.
\<close>

definition Object_prototype_keys :: "string list" where
  "Object_prototype_keys =
     [''constructor'', ''hasOwnProperty'', ''isPrototypeOf'', ''propertyIsEnumerable'',
      ''toLocaleString'', ''toString'', ''valueOf'', ''__proto__'', ''__defineGetter__'',
      ''__defineSetter__'', ''__lookupGetter__'', ''__lookupSetter__'']"

text \<open>What \<^verbatim>\<open>toIANATimezone\<close> can return besides \<^verbatim>\<open>null\<close>: a string, or an inherited value.\<close>

datatype js_value = JsString string | JsInherited

text \<open>\<^verbatim>\<open>TIMEZONE_MAP[customId] || null\<close>: an own entry that is the empty string would be falsy.\<close>

definition toIANATimezone :: "string \<Rightarrow> js_value option" where
  "toIANATimezone customId =
     (case map_of TIMEZONE_MAP customId of
        Some z \<Rightarrow> if z = [] then None else Some (JsString z)
      | None \<Rightarrow> if customId \<in> set Object_prototype_keys then Some JsInherited else None)"

text \<open>
  What one \<^verbatim>\<open>new Date()\<close> offers to \<^verbatim>\<open>checkAlarms\<close>: the local hours, minutes and day of the
  week (\<^verbatim>\<open>getDay\<close>, Sunday is 0), and, for an IANA zone name, what the two
  \<^verbatim>\<open>Intl.DateTimeFormat\<close> formatters produce: the \<^verbatim>\<open>hour\<close> and \<^verbatim>\<open>minute\<close> parts (a part may
  be missing) and the short weekday name. \<open>None\<close> stands for a formatter that throws.
\<close>

record zone_reading =
  hour_part :: "string option"
  minute_part :: "string option"
  weekday :: string

record date_now =
  getHours :: nat
  getMinutes :: nat
  getDay :: nat
  in_zone :: "string \<Rightarrow> zone_reading option"

definition dayMap :: "(string \<times> nat) list" where
  "dayMap = [(''Sun'', 0), (''Mon'', 1), (''Tue'', 2), (''Wed'', 3), (''Thu'', 4), (''Fri'', 5),
             (''Sat'', 6)]"

definition local_reading :: "date_now \<Rightarrow> string \<times> nat" where
  "local_reading now = (hhmm (getHours now) (getMinutes now), getDay now)"

text \<open>
  The first part of \<^verbatim>\<open>checkAlarms\<close>: the current time as \<^verbatim>\<open>HH:MM\<close> and the current day, in
  the active timezone when there is one, it is in the table and the formatter does not
  throw, and in local time otherwise. With an inherited value as \<^verbatim>\<open>timeZone\<close> the
  constructor of the formatter throws, and the \<^verbatim>\<open>catch\<close> branch reads the local time.
\<close>

definition current_reading :: "FavoriteTimezone option \<Rightarrow> date_now \<Rightarrow> string \<times> nat" where
  "current_reading currentTimezone now =
     (case currentTimezone of
        None \<Rightarrow> local_reading now
      | Some tz \<Rightarrow>
          (case toIANATimezone (fav_id tz) of
             None \<Rightarrow> local_reading now
           | Some JsInherited \<Rightarrow> local_reading now
           | Some (JsString ianaTimezone) \<Rightarrow>
               (case in_zone now ianaTimezone of
                  None \<Rightarrow> local_reading now
                | Some r \<Rightarrow>
                    (let hour = (case hour_part r of Some h \<Rightarrow> if h = [] then ''00'' else h
                                 | None \<Rightarrow> ''00'');
                         minute = (case minute_part r of Some m \<Rightarrow> if m = [] then ''00'' else m
                                   | None \<Rightarrow> ''00'')
                     in (hour @ '':'' @ minute,
                         case map_of dayMap (weekday r) of Some d \<Rightarrow> d | None \<Rightarrow> 0)))))"

subsection \<open>The snooze marker in a label\<close>

text \<open>
  The regular expression \<^verbatim>\<open>\(Pospuesta desde (\d{2}:\d{2})\)\<close> anchored at the start of a
  string: the captured time when the string starts with a marker.
\<close>

definition marker_at :: "string \<Rightarrow> string option" where
  "marker_at s =
     (if take 17 s = ''(Pospuesta desde '' then
        (case drop 17 s of
           a # b # c # d # e # f # _ \<Rightarrow>
             if is_digit a \<and> is_digit b \<and> c = CHR '':'' \<and> is_digit d \<and> is_digit e \<and>
                f = CHR '')''
             then Some [a, b, c, d, e] else None
         | _ \<Rightarrow> None)
      else None)"

text \<open>\<^verbatim>\<open>label.match(/\(Pospuesta desde (\d{2}:\d{2})\)/)\<close>: the group of the leftmost match.\<close>

fun labelMatch :: "string \<Rightarrow> string option" where
  "labelMatch [] = None"
| "labelMatch (c # cs) =
     (case marker_at (c # cs) of Some t \<Rightarrow> Some t | None \<Rightarrow> labelMatch cs)"

text \<open>
  \<^verbatim>\<open>label.replace(/ \(Pospuesta desde \d{2}:\d{2}\)/, '')\<close>: the leftmost occurrence of a
  space followed by a marker (24 code units) is removed.
\<close>

fun strip_marker :: "string \<Rightarrow> string" where
  "strip_marker [] = []"
| "strip_marker (c # cs) =
     (if c = CHR '' '' \<and> marker_at cs \<noteq> None then drop 23 cs else c # strip_marker cs)"

subsection \<open>The provider\<close>

text \<open>\<^verbatim>\<open>interface AlarmUpdate\<close>: a field that is absent is \<open>None\<close>.\<close>

record AlarmUpdate =
  upd_time :: "string option"
  upd_label :: "string option"
  upd_enabled :: "bool option"
  upd_days :: "string list option"

text \<open>
  The state cells of \<^verbatim>\<open>AlarmProvider\<close> that the alarm check reads or writes, and the current
  value of \<^verbatim>\<open>activeTimezoneRef\<close>. A key \<^verbatim>\<open>`${alarm.id}-${currentTime}`\<close> of the set of
  dismissed alarms is kept as the pair of the id and the time.
\<close>

record provider =
  ringingAlarm :: "Alarm option"
  lastCheckedTime :: string
  dismissedAlarms :: "(int \<times> string) set"
  activeTimezoneRef :: "FavoriteTimezone option"

definition provider_init :: provider where
  "provider_init =
     \<lparr>ringingAlarm = None, lastCheckedTime = [], dismissedAlarms = {}, activeTimezoneRef = None\<rparr>"

text \<open>
  The values of the state cells as a closure sees them: a function defined during a render
  reads the cells of that render, whatever has been stored since.
\<close>

record captured =
  seen_ringingAlarm :: "Alarm option"
  seen_lastCheckedTime :: string
  seen_dismissedAlarms :: "(int \<times> string) set"

definition capture :: "provider \<Rightarrow> captured" where
  "capture p =
     \<lparr>seen_ringingAlarm = ringingAlarm p, seen_lastCheckedTime = lastCheckedTime p,
      seen_dismissedAlarms = dismissedAlarms p\<rparr>"

definition dayNames :: "string list" where
  "dayNames = [''Dom'', ''Lun'', ''Mar'', ''Mi'' @ [CHR 0xE9], ''Jue'', ''Vie'', ''S'' @ [CHR 0xE1] @ ''b'']"

text \<open>\<^verbatim>\<open>shouldAlarmRingToday\<close>. A day number outside the table names no day.\<close>

definition shouldAlarmRingToday :: "Alarm \<Rightarrow> nat \<Rightarrow> bool" where
  "shouldAlarmRingToday alarm currentDay =
     (if days alarm = [] then True
      else currentDay < length dayNames \<and> dayNames ! currentDay \<in> set (days alarm))"

text \<open>
  \<^verbatim>\<open>triggerAlarm\<close>: the alarm becomes the ringing alarm; when its label carries a marker,
  the request that restores the original time and label is handed to \<^verbatim>\<open>setTimeout\<close>, which
  sends it to the back end one second later. The function returns the new state and that
  request, if any. Sound and notification are left out.
\<close>

definition triggerAlarm :: "Alarm \<Rightarrow> provider \<Rightarrow> provider \<times> (int \<times> AlarmUpdate) option" where
  "triggerAlarm alarm p =
     (p\<lparr>ringingAlarm := Some alarm\<rparr>,
      case labelMatch (label alarm) of
        Some originalTime \<Rightarrow>
          Some (alarm_id alarm,
                \<lparr>upd_time = Some originalTime, upd_label = Some (strip_marker (label alarm)),
                 upd_enabled = Some True, upd_days = None\<rparr>)
      | None \<Rightarrow> None)"

text \<open>
  The loop of \<^verbatim>\<open>checkAlarms\<close> over the enabled alarms: the first alarm that is not dismissed
  for this minute, whose time is the current time and that rings on the current day.
\<close>

fun first_due :: "(int \<times> string) set \<Rightarrow> string \<Rightarrow> nat \<Rightarrow> Alarm list \<Rightarrow> Alarm option" where
  "first_due dismissed currentTime currentDay [] = None"
| "first_due dismissed currentTime currentDay (alarm # rest) =
     (if (alarm_id alarm, currentTime) \<in> dismissed
      then first_due dismissed currentTime currentDay rest
      else if alarm_time alarm = currentTime \<and> shouldAlarmRingToday alarm currentDay
      then Some alarm
      else first_due dismissed currentTime currentDay rest)"

text \<open>
  \<^verbatim>\<open>checkAlarms\<close>, as a function of the cells its closure sees (\<open>seen\<close>), of the clock and of
  the outcome of \<^verbatim>\<open>alarmsAPI.getAll\<close>. It writes to the provider's current state \<open>p\<close>.
\<close>

definition checkAlarms ::
  "captured \<Rightarrow> date_now \<Rightarrow> Alarm list api_result \<Rightarrow> provider \<Rightarrow>
     provider \<times> (int \<times> AlarmUpdate) option" where
  "checkAlarms seen now resp p =
     (let (currentTime, currentDay) = current_reading (activeTimezoneRef p) now in
      if currentTime = seen_lastCheckedTime seen then (p, None)
      else
        let p1 = p\<lparr>dismissedAlarms := {}, lastCheckedTime := currentTime\<rparr> in
        if seen_ringingAlarm seen \<noteq> None then (p1, None)
        else case resp of
          Threw _ \<Rightarrow> (p1, None)
        | Ok allAlarms \<Rightarrow>
            (case first_due (seen_dismissedAlarms seen) currentTime currentDay
                    (filter enabled allAlarms) of
               Some alarm \<Rightarrow> triggerAlarm alarm p1
             | None \<Rightarrow> (p1, None)))"

text \<open>
  The periodic check. The effect that starts the interval has no dependencies: it runs
  once, after the first render, and the interval keeps calling the \<^verbatim>\<open>checkAlarms\<close> of that
  render, whose closure holds the initial values of the three state cells.
\<close>

definition periodic_check ::
  "date_now \<Rightarrow> Alarm list api_result \<Rightarrow> provider \<Rightarrow> provider \<times> (int \<times> AlarmUpdate) option" where
  "periodic_check now resp p = checkAlarms (capture provider_init) now resp p"

text \<open>
  \<^verbatim>\<open>snoozeAlarm\<close>, with the local clock \<open>now\<close>. \<^verbatim>\<open>now.setMinutes(now.getMinutes() + 5)\<close> is
  taken on a day of 24 hours.
\<close>

definition snoozeTime :: "date_now \<Rightarrow> string" where
  "snoozeTime now =
     (let total = (getHours now * 60 + getMinutes now + 5) mod 1440
      in hhmm (total div 60) (total mod 60))"

text \<open>The text \<^verbatim>\<open>` (Pospuesta desde ${originalTime})`\<close> that a snooze appends to the label.\<close>

definition snooze_suffix :: "string \<Rightarrow> string" where
  "snooze_suffix originalTime = '' (Pospuesta desde '' @ originalTime @ '')''"

definition snooze_update :: "date_now \<Rightarrow> Alarm \<Rightarrow> AlarmUpdate" where
  "snooze_update now alarmToSnooze =
     (let originalTime = (case labelMatch (label alarmToSnooze) of
                            Some t \<Rightarrow> t | None \<Rightarrow> alarm_time alarmToSnooze);
          originalLabel = strip_marker (label alarmToSnooze)
      in \<lparr>upd_time = Some (snoozeTime now),
          upd_label = Some (originalLabel @ snooze_suffix originalTime),
          upd_enabled = Some True, upd_days = None\<rparr>)"

definition snoozeAlarm :: "date_now \<Rightarrow> provider \<Rightarrow> provider \<times> (int \<times> AlarmUpdate) option" where
  "snoozeAlarm now p =
     (case ringingAlarm p of
        None \<Rightarrow> (p, None)
      | Some alarmToSnooze \<Rightarrow>
          (p\<lparr>dismissedAlarms :=
                insert (alarm_id alarmToSnooze, hhmm (getHours now) (getMinutes now))
                  (dismissedAlarms p),
              ringingAlarm := None\<rparr>,
           Some (alarm_id alarmToSnooze, snooze_update now alarmToSnooze)))"

definition dismissAlarm :: "date_now \<Rightarrow> provider \<Rightarrow> provider" where
  "dismissAlarm now p =
     (case ringingAlarm p of
        None \<Rightarrow> p
      | Some a \<Rightarrow>
          p\<lparr>dismissedAlarms :=
               insert (alarm_id a, hhmm (getHours now) (getMinutes now)) (dismissedAlarms p),
            ringingAlarm := None\<rparr>)"

text \<open>
  Modelled from the spec: the update of an alarm by the back end (absent from the sources),
  which stores "the updated record": the fields present in the request replace the
  stored ones, the others stay.
\<close>

definition apply_update :: "AlarmUpdate \<Rightarrow> Alarm \<Rightarrow> Alarm" where
  "apply_update u a =
     a\<lparr>alarm_time := (case upd_time u of Some t \<Rightarrow> t | None \<Rightarrow> alarm_time a),
       label := (case upd_label u of Some l \<Rightarrow> l | None \<Rightarrow> label a),
       enabled := (case upd_enabled u of Some e \<Rightarrow> e | None \<Rightarrow> enabled a),
       days := (case upd_days u of Some d \<Rightarrow> d | None \<Rightarrow> days a)\<rparr>"

text \<open>
  Modelled from the spec: a request of the provider reaches the back end, which updates
  the alarm with the request's id.
\<close>

definition deliver :: "(int \<times> AlarmUpdate) option \<Rightarrow> Alarm \<Rightarrow> Alarm" where
  "deliver req a =
     (case req of Some (i, u) \<Rightarrow> if i = alarm_id a then apply_update u a else a | None \<Rightarrow> a)"

text \<open>
  One alarm followed through its rings and snoozes: its record in the back end, the
  provider, and the restoring requests that \<^verbatim>\<open>triggerAlarm\<close> has handed to \<^verbatim>\<open>setTimeout\<close>
  and that have not been sent yet, oldest first.
\<close>

record cycle =
  stored :: Alarm
  prov :: provider
  timers :: "(int \<times> AlarmUpdate) list"

definition cycle_init :: "Alarm \<Rightarrow> cycle" where
  "cycle_init a = \<lparr>stored = a, prov = provider_init, timers = []\<rparr>"

text \<open>
  What happens to the alarm. It rings: the check has fetched the record as it is stored
  and calls \<^verbatim>\<open>triggerAlarm\<close> with it. The oldest timer fires and sends its request. The user
  snoozes, which sends a request at once, or dismisses. The flag of a request tells
  whether \<^verbatim>\<open>alarmsAPI.update\<close> succeeded; when it threw, the record is as before (both
  callers only log the error).
\<close>

datatype cycle_event = Rings | TimerFires bool | Snoozes date_now bool | Dismisses date_now

fun cycle_step :: "cycle_event \<Rightarrow> cycle \<Rightarrow> cycle" where
  "cycle_step Rings s =
     (case triggerAlarm (stored s) (prov s) of
        (p, req) \<Rightarrow>
          s\<lparr>prov := p, timers := timers s @ (case req of Some q \<Rightarrow> [q] | None \<Rightarrow> [])\<rparr>)"
| "cycle_step (TimerFires ok) s =
     (case timers s of
        [] \<Rightarrow> s
      | q # qs \<Rightarrow> s\<lparr>stored := (if ok then deliver (Some q) (stored s) else stored s),
                     timers := qs\<rparr>)"
| "cycle_step (Snoozes now ok) s =
     (case snoozeAlarm now (prov s) of
        (p, req) \<Rightarrow> s\<lparr>prov := p, stored := (if ok then deliver req (stored s) else stored s)\<rparr>)"
| "cycle_step (Dismisses now) s = s\<lparr>prov := dismissAlarm now (prov s)\<rparr>"

definition cycle_run :: "cycle_event list \<Rightarrow> cycle \<Rightarrow> cycle" where
  "cycle_run evs s = fold cycle_step evs s"




text \<open>Example data: a clock, and alarms for the checks below.\<close>

definition clock :: "nat \<Rightarrow> nat \<Rightarrow> nat \<Rightarrow> date_now" where
  "clock h m d = \<lparr>getHours = h, getMinutes = m, getDay = d, in_zone = (\<lambda>_. None)\<rparr>"

definition alarm_at :: "int \<Rightarrow> string \<Rightarrow> string \<Rightarrow> Alarm" where
  "alarm_at i t l =
     \<lparr>alarm_id = i, alarm_time = t, label = l, enabled = True, days = [], created_at = []\<rparr>"

text \<open>
  Alarm \<open>a\<close> put off to the time \<open>t\<close>: the time is replaced, the label is extended by the
  marker that carries the time of \<open>a\<close>. A record is a postponed \<open>a\<close> when it is \<open>a\<close> put off
  to the record's own time.
\<close>

definition postponed :: "string \<Rightarrow> Alarm \<Rightarrow> Alarm" where
  "postponed t a = a\<lparr>alarm_time := t, label := label a @ snooze_suffix (alarm_time a)\<rparr>"

definition is_postponed :: "Alarm \<Rightarrow> Alarm \<Rightarrow> bool" where
  "is_postponed a r = (r = postponed (alarm_time r) a)"



text \<open>
  Example runs of the alarm 07:00 labelled \<^verbatim>\<open>Gym\<close>. It rings and is snoozed at 07:00. Then
  it rings again, as a snoozed alarm, and the timer of that ring fires. In the third run
  the user snoozes the second ring at 07:05, before the timer of that ring fires. The last
  run is that of an alarm whose own label contains a marker: it rings and its timer
  fires, it is snoozed, rings again, and the timer fires.
\<close>

definition gym :: Alarm where
  "gym = alarm_at 1 ''07:00'' ''Gym''"



definition snoozed_within_the_second :: "cycle_event list" where
  "snoozed_within_the_second =
     [Rings, Snoozes (clock 7 0 1) True, Rings, Snoozes (clock 7 5 1) True, TimerFires True]"


section \<open>The circular doubly linked list\<close>

text \<open>
  Modelled from the spec: the circular doubly linked list of the back end (the module
  \<^verbatim>\<open>data_structures\<close>, absent from the sources), after the spec's data model and public
  contract. A node wraps one payload and refers to its previous and its next node.
  Following the spec's design notes, the nodes live in an arena and are addressed by
  stable indices; \<open>fresh\<close> is the next index that has never been used.
\<close>

record 'a node =
  n_data :: 'a
  n_previous :: nat
  n_next :: nat

record 'a cdll =
  nodes :: "nat \<Rightarrow> 'a node option"
  head :: "nat option"
  count :: nat
  fresh :: nat

text \<open>
  Modelled from the spec: the list as it is created, "a list with zero elements has no head
  and count 0".
\<close>

definition empty_list :: "'a cdll" where
  "empty_list = \<lparr>nodes = (\<lambda>_. None), head = None, count = 0, fresh = 0\<rparr>"

text \<open>
  Modelled from the spec: reading the \<open>next\<close> link, the \<open>previous\<close> link and the payload of
  the node at address \<open>a\<close> (an address without a node is left alone), and writing the
  two links.
\<close>

definition next_of :: "'a cdll \<Rightarrow> nat \<Rightarrow> nat" where
  "next_of l a = (case nodes l a of Some n \<Rightarrow> n_next n | None \<Rightarrow> a)"

definition previous_of :: "'a cdll \<Rightarrow> nat \<Rightarrow> nat" where
  "previous_of l a = (case nodes l a of Some n \<Rightarrow> n_previous n | None \<Rightarrow> a)"

definition payload :: "'a cdll \<Rightarrow> nat \<Rightarrow> 'a option" where
  "payload l a = map_option n_data (nodes l a)"

definition set_next :: "nat \<Rightarrow> nat \<Rightarrow> 'a cdll \<Rightarrow> 'a cdll" where
  "set_next a b l =
     (case nodes l a of Some n \<Rightarrow> l\<lparr>nodes := (nodes l)(a \<mapsto> n\<lparr>n_next := b\<rparr>)\<rparr> | None \<Rightarrow> l)"

definition set_previous :: "nat \<Rightarrow> nat \<Rightarrow> 'a cdll \<Rightarrow> 'a cdll" where
  "set_previous a b l =
     (case nodes l a of Some n \<Rightarrow> l\<lparr>nodes := (nodes l)(a \<mapsto> n\<lparr>n_previous := b\<rparr>)\<rparr> | None \<Rightarrow> l)"

text \<open>
  Modelled from the spec: a traversal, the addresses met when following \<open>next\<close> from \<open>a\<close>,
  \<open>a\<close> included, \<open>n\<close> of them.
\<close>

fun trail :: "'a cdll \<Rightarrow> nat \<Rightarrow> nat \<Rightarrow> nat list" where
  "trail l 0 a = []"
| "trail l (Suc n) a = a # trail l n (next_of l a)"

text \<open>Modelled from the spec: the ring in order from the head, \<open>count\<close> steps along \<open>next\<close>.\<close>

definition ring_order :: "'a cdll \<Rightarrow> nat list" where
  "ring_order l = (case head l of None \<Rightarrow> [] | Some h \<Rightarrow> trail l (count l) h)"

text \<open>
  Modelled from the spec: \<^verbatim>\<open>get_all()\<close>, all payloads in ring order starting from the head,
  and the two queries \<^verbatim>\<open>is_empty()\<close> and \<^verbatim>\<open>size()\<close>.
\<close>

definition get_all :: "'a cdll \<Rightarrow> 'a list" where
  "get_all l = List.map_filter (payload l) (ring_order l)"

definition is_empty :: "'a cdll \<Rightarrow> bool" where
  "is_empty l = (head l = None)"

definition size_of :: "'a cdll \<Rightarrow> nat" where
  "size_of l = count l"

text \<open>
  Modelled from the spec: the scan that \<^verbatim>\<open>delete\<close>, \<^verbatim>\<open>get_next\<close> and \<^verbatim>\<open>get_previous\<close> share: the first node in
  ring order whose payload satisfies the predicate.
\<close>

definition find_node :: "('a \<Rightarrow> bool) \<Rightarrow> 'a cdll \<Rightarrow> nat option" where
  "find_node P l =
     List.find (\<lambda>a. case payload l a of Some x \<Rightarrow> P x | None \<Rightarrow> False) (ring_order l)"

text \<open>
  Modelled from the spec: an insertion into the empty list; the new node links to itself and is
  the head.
\<close>

definition insert_first :: "'a \<Rightarrow> 'a cdll \<Rightarrow> 'a cdll" where
  "insert_first v l =
     l\<lparr>nodes := (nodes l)(fresh l \<mapsto> \<lparr>n_data = v, n_previous = fresh l, n_next = fresh l\<rparr>),
       head := Some (fresh l), count := 1, fresh := Suc (fresh l)\<rparr>"

text \<open>
  Modelled from the spec: a new node is linked between the node at \<open>target\<close> and its previous neighbour. The head
  is not touched.
\<close>

definition link_before :: "nat \<Rightarrow> 'a \<Rightarrow> 'a cdll \<Rightarrow> 'a cdll" where
  "link_before target v l =
     (let new = fresh l;
          p = previous_of l target;
          l1 = l\<lparr>nodes := (nodes l)(new \<mapsto> \<lparr>n_data = v, n_previous = p, n_next = target\<rparr>)\<rparr>;
          l2 = set_next p new l1;
          l3 = set_previous target new l2
      in l3\<lparr>count := Suc (count l), fresh := Suc new\<rparr>)"

text \<open>
  Modelled from the spec: \<^verbatim>\<open>insert_at_beginning(value)\<close>: the new node is linked between the old head's previous
  neighbour and the old head, and becomes the head.
\<close>

definition insert_at_beginning :: "'a \<Rightarrow> 'a cdll \<Rightarrow> 'a cdll" where
  "insert_at_beginning v l =
     (case head l of
        None \<Rightarrow> insert_first v l
      | Some h \<Rightarrow> (link_before h v l)\<lparr>head := Some (fresh l)\<rparr>)"

text \<open>
  Modelled from the spec: \<^verbatim>\<open>insert_at_end(value)\<close>, inserting immediately before the head,
  head unchanged.
\<close>

definition insert_at_end :: "'a \<Rightarrow> 'a cdll \<Rightarrow> 'a cdll" where
  "insert_at_end v l =
     (case head l of
        None \<Rightarrow> insert_first v l
      | Some h \<Rightarrow> link_before h v l)"

text \<open>
  Modelled from the spec: \<^verbatim>\<open>insert_sorted(value, key_fn, compare)\<close>, for keys in a linear order. The spec's two
  sentences on ties disagree (insert before the first key that is not less; insert after
  all equal keys): the model follows the tie-break rule and inserts before the first
  existing element whose key is greater than the new key, at the end if there is none;
  the new node becomes the head exactly when its key is smaller than the head's.
\<close>

definition insert_sorted :: "('a \<Rightarrow> 'k::linorder) \<Rightarrow> 'a \<Rightarrow> 'a cdll \<Rightarrow> 'a cdll" where
  "insert_sorted key_fn v l =
     (case head l of
        None \<Rightarrow> insert_first v l
      | Some h \<Rightarrow>
          (case find_node (\<lambda>x. key_fn v < key_fn x) l of
             None \<Rightarrow> link_before h v l
           | Some target \<Rightarrow>
               if target = h then (link_before h v l)\<lparr>head := Some (fresh l)\<rparr>
               else link_before target v l))"

text \<open>
  Modelled from the spec: taking the node at \<open>t\<close> out of the ring: its two neighbours are relinked to each other,
  the count is decremented, and a head that is removed advances to its former next (or
  the list becomes empty).
\<close>

definition unlink :: "nat \<Rightarrow> 'a cdll \<Rightarrow> 'a cdll" where
  "unlink t l =
     (if count l \<le> 1 then l\<lparr>nodes := (nodes l)(t := None), head := None, count := 0\<rparr>
      else
        let p = previous_of l t;
            n = next_of l t;
            l1 = set_next p n l;
            l2 = set_previous n p l1
        in l2\<lparr>nodes := (nodes l2)(t := None),
              head := (if head l = Some t then Some n else head l),
              count := count l - 1\<rparr>)"

text \<open>
  Modelled from the spec: \<^verbatim>\<open>delete(predicate)\<close>, the list after the call and whether a removal
  occurred.
\<close>

definition delete :: "('a \<Rightarrow> bool) \<Rightarrow> 'a cdll \<Rightarrow> 'a cdll \<times> bool" where
  "delete P l = (case find_node P l of None \<Rightarrow> (l, False) | Some t \<Rightarrow> (unlink t l, True))"

text \<open>Modelled from the spec: "clear all" destroys every node and resets the list to empty.\<close>

definition clear :: "'a cdll \<Rightarrow> 'a cdll" where
  "clear l = l\<lparr>nodes := (\<lambda>_. None), head := None, count := 0\<rparr>"

text \<open>
  Modelled from the spec: the two results of the error taxonomy that navigation and reordering
  report.
\<close>

datatype cdll_error = EmptyCollection | NotFound

text \<open>
  Modelled from the spec: \<^verbatim>\<open>get_next(reference_predicate)\<close> and
  \<^verbatim>\<open>get_previous(reference_predicate)\<close>: the payload of the neighbour of the node that
  matches, "empty" on a list without nodes, "reference not found" when no node matches.
\<close>

definition neighbour ::
  "('a cdll \<Rightarrow> nat \<Rightarrow> nat) \<Rightarrow> ('a \<Rightarrow> bool) \<Rightarrow> 'a cdll \<Rightarrow> cdll_error + 'a" where
  "neighbour step P l =
     (if head l = None then Inl EmptyCollection
      else case find_node P l of
        None \<Rightarrow> Inl NotFound
      | Some t \<Rightarrow> (case payload l (step l t) of Some x \<Rightarrow> Inr x | None \<Rightarrow> Inl NotFound))"

definition get_next :: "('a \<Rightarrow> bool) \<Rightarrow> 'a cdll \<Rightarrow> cdll_error + 'a" where
  "get_next P l = neighbour next_of P l"

definition get_previous :: "('a \<Rightarrow> bool) \<Rightarrow> 'a cdll \<Rightarrow> cdll_error + 'a" where
  "get_previous P l = neighbour previous_of P l"

subsection \<open>Reordering the favourites\<close>

text \<open>
  Modelled from the spec: \<^verbatim>\<open>reorder(id, new_position)\<close> of the favourite-timezone adapter
  (absent from the sources; the front end only has the call \<^verbatim>\<open>reorderFavorite\<close>). A target
  index outside \<open>[0, count)\<close> is clamped to the nearest valid bound. The operation is a
  delete followed by a positional re-insertion: walk \<open>new_position\<close> steps from the head,
  or from the end if that is closer, and insert before that node. At position 0 the
  re-inserted node is the new head.
\<close>

definition clamp_position :: "nat \<Rightarrow> int \<Rightarrow> nat" where
  "clamp_position n new_position =
     (if new_position < 0 then 0
      else if int n \<le> new_position then n - 1
      else nat new_position)"

definition walk_to :: "nat \<Rightarrow> 'a cdll \<Rightarrow> nat \<Rightarrow> nat" where
  "walk_to pos l h =
     (if 2 * pos \<le> count l then (next_of l ^^ pos) h
      else (previous_of l ^^ (count l - pos)) h)"

definition insert_at :: "nat \<Rightarrow> 'a \<Rightarrow> 'a cdll \<Rightarrow> 'a cdll" where
  "insert_at pos v l =
     (case head l of
        None \<Rightarrow> insert_first v l
      | Some h \<Rightarrow>
          let l' = link_before (walk_to pos l h) v l
          in if pos = 0 then l'\<lparr>head := Some (fresh l)\<rparr> else l')"

definition reorder :: "('a \<Rightarrow> 'i) \<Rightarrow> 'i \<Rightarrow> int \<Rightarrow> 'a cdll \<Rightarrow> cdll_error + 'a cdll" where
  "reorder ident i new_position l =
     (if head l = None then Inl EmptyCollection
      else case find_node (\<lambda>x. ident x = i) l of
        None \<Rightarrow> Inl NotFound
      | Some t \<Rightarrow>
          (case payload l t of
             None \<Rightarrow> Inl NotFound
           | Some v \<Rightarrow> Inr (insert_at (clamp_position (count l) new_position) v (unlink t l))))"

text \<open>
  Modelled from the spec: the mutating operations of the public contract and of the favourites
  adapter, and a run of them from the empty list.
\<close>

datatype ('a, 'i) list_op =
    InsertAtBeginning 'a
  | InsertAtEnd 'a
  | InsertSorted 'a
  | Delete "'a \<Rightarrow> bool"
  | Reorder 'i int
  | Clear

fun apply_op ::
  "('a \<Rightarrow> 'k::linorder) \<Rightarrow> ('a \<Rightarrow> 'i) \<Rightarrow> ('a, 'i) list_op \<Rightarrow> 'a cdll \<Rightarrow> 'a cdll" where
  "apply_op key_fn ident (InsertAtBeginning v) l = insert_at_beginning v l"
| "apply_op key_fn ident (InsertAtEnd v) l = insert_at_end v l"
| "apply_op key_fn ident (InsertSorted v) l = insert_sorted key_fn v l"
| "apply_op key_fn ident (Delete P) l = fst (delete P l)"
| "apply_op key_fn ident (Reorder i pos) l =
     (case reorder ident i pos l of Inr l' \<Rightarrow> l' | Inl _ \<Rightarrow> l)"
| "apply_op key_fn ident Clear l = clear l"

definition run_ops ::
  "('a \<Rightarrow> 'k::linorder) \<Rightarrow> ('a \<Rightarrow> 'i) \<Rightarrow> ('a, 'i) list_op list \<Rightarrow> 'a cdll" where
  "run_ops key_fn ident ops = fold (apply_op key_fn ident) ops empty_list"

text \<open>
  The representation invariant: the addresses \<open>xs\<close>, all different and all allocated, are
  exactly the nodes; \<open>next\<close> maps the ring to itself rotated by one and \<open>previous\<close> maps
  it back; the head is the first address and the count their number.
\<close>

definition cyclic :: "'a cdll \<Rightarrow> nat list \<Rightarrow> bool" where
  "cyclic l xs =
     (distinct xs \<and> length xs = count l \<and> dom (nodes l) = set xs \<and>
      (\<forall>a \<in> set xs. a < fresh l) \<and>
      map (next_of l) xs = rotate1 xs \<and> map (previous_of l) (rotate1 xs) = xs)"

definition ring :: "'a cdll \<Rightarrow> nat list \<Rightarrow> bool" where
  "ring l xs = (cyclic l xs \<and> head l = (case xs of [] \<Rightarrow> None | x # _ \<Rightarrow> Some x))"

text \<open>The list \<open>l\<close> is the ring of the addresses \<open>xs\<close> and holds the payloads \<open>vs\<close> there.\<close>

definition represents :: "'a cdll \<Rightarrow> nat list \<Rightarrow> 'a list \<Rightarrow> bool" where
  "represents l xs vs = (ring l xs \<and> map (payload l) xs = map Some vs)"

text \<open>The list-level reordering: take the element at index \<open>k\<close> out and put it at index \<open>j\<close>.\<close>

definition move :: "nat \<Rightarrow> nat \<Rightarrow> 'a list \<Rightarrow> 'a list" where
  "move k j vs =
     (let rest = take k vs @ drop (Suc k) vs in take j rest @ vs ! k # drop j rest)"

text \<open>What each operation does to the enumeration of the list.\<close>

fun list_effect ::
  "('a \<Rightarrow> 'k::linorder) \<Rightarrow> ('a \<Rightarrow> 'i) \<Rightarrow> ('a, 'i) list_op \<Rightarrow> 'a list \<Rightarrow> 'a list" where
  "list_effect key_fn ident (InsertAtBeginning v) vs = v # vs"
| "list_effect key_fn ident (InsertAtEnd v) vs = vs @ [v]"
| "list_effect key_fn ident (InsertSorted v) vs =
     takeWhile (\<lambda>x. \<not> key_fn v < key_fn x) vs @ v # dropWhile (\<lambda>x. \<not> key_fn v < key_fn x) vs"
| "list_effect key_fn ident (Delete P) vs =
     takeWhile (\<lambda>x. \<not> P x) vs @ drop 1 (dropWhile (\<lambda>x. \<not> P x) vs)"
| "list_effect key_fn ident (Reorder i pos) vs =
     (if length (takeWhile (\<lambda>x. ident x \<noteq> i) vs) < length vs
      then move (length (takeWhile (\<lambda>x. ident x \<noteq> i) vs)) (clamp_position (length vs) pos) vs
      else vs)"
| "list_effect key_fn ident Clear vs = []"

text \<open>
  The invariants of the spec's data model, for one list: from every node, \<open>count\<close> steps
  along \<open>next\<close> lead back to it, \<open>next\<close> and \<open>previous\<close> undo each other, the head
  of a list of one element is its own neighbour on both sides, and there is no head
  exactly when the count is zero.
\<close>

definition closed_ring :: "'a cdll \<Rightarrow> bool" where
  "closed_ring l =
     ((\<forall>a \<in> dom (nodes l).
         (next_of l ^^ count l) a = a \<and>
         previous_of l (next_of l a) = a \<and> next_of l (previous_of l a) = a) \<and>
      (count l = 1 \<longrightarrow> (\<exists>h. head l = Some h \<and> next_of l h = h \<and> previous_of l h = h)) \<and>
      ((head l = None) = (count l = 0)))"

text \<open>Example data: three favourites, keyed by their order number.\<close>

definition london :: FavoriteTimezone where
  "london = \<lparr>fav_id = ''reino-unido-londres'', fav_country = ''Reino Unido'',
             fav_city = ''Londres'', fav_offset = ''UTC+0'', fav_order = 2\<rparr>"

definition three_added :: "FavoriteTimezone cdll" where
  "three_added = run_ops fav_order fav_id [InsertAtEnd tokyo, InsertAtEnd paris, InsertAtEnd london]"

section \<open>Lemmas on the stopwatch\<close>

lemma laps_addLap:
  "0 < time s \<Longrightarrow> \<exists>l. laps (addLap r s) = l # laps s \<and> lap_total l = time s \<and>
     lap_delta l = time s - lastLapTime s"
  by (cases r) (simp_all add: addLap_def Let_def)

lemma addLap_ignored: "\<not> 0 < time s \<Longrightarrow> addLap r s = s"
  by (simp add: addLap_def)

lemma reset_cleared: "reset True s = stopwatch_init"
  by (simp add: reset_def stopwatch_init_def)

lemma laps_take_laps:
  "\<exists>ls. laps (take_laps xs s) = ls @ laps s \<and>
        map lap_total ls = rev (recorded (map fst xs))"
proof (induction xs arbitrary: s)
  case Nil
  then show ?case by (simp add: recorded_def)
next
  case (Cons x xs)
  obtain t r where x: "x = (t, r)" by (cases x)
  let ?s1 = "addLap r (s\<lparr>time := t\<rparr>)"
  from Cons.IH [of ?s1] obtain ls where
    ls: "laps (take_laps xs ?s1) = ls @ laps ?s1" "map lap_total ls = rev (recorded (map fst xs))"
    by blast
  show ?case
  proof (cases "0 < t")
    case True
    with laps_addLap [of "s\<lparr>time := t\<rparr>" r]
    obtain l where l: "laps ?s1 = l # laps s" "lap_total l = t" by auto
    have "laps (take_laps (x # xs) s) = (ls @ [l]) @ laps s"
      using ls l x by simp
    moreover have "map lap_total (ls @ [l]) = rev (recorded (map fst (x # xs)))"
      using ls l x True by (simp add: recorded_def)
    ultimately show ?thesis by blast
  next
    case False
    then have "?s1 = s\<lparr>time := t\<rparr>" by (simp add: addLap_ignored)
    with ls x False show ?thesis by (auto simp: recorded_def)
  qed
qed

text \<open>
  C1. Every lap that is added becomes the first element of the provider's lap list and
  the laps recorded before follow it unchanged; after any sequence of lap presses the
  list holds the recorded clock values newest first, in front of what was there before.
\<close>

theorem laps_newest_first:
  "(0 < time s \<longrightarrow> (\<exists>l. laps (addLap r s) = l # laps s \<and> lap_total l = time s)) \<and>
   (\<exists>ls. laps (take_laps xs s) = ls @ laps s \<and>
         map lap_total ls = rev (recorded (map fst xs)))"
  using laps_addLap [of s r] laps_take_laps [of xs s] by blast

theorem laps_newest_first_witness:
  "0 < time (stopwatch_init\<lparr>time := 100\<rparr>) \<and>
   (\<exists>l. laps (addLap (Some 1) (stopwatch_init\<lparr>time := 100\<rparr>)) = [l] \<and> lap_total l = 100) \<and>
   map lap_total (laps (take_laps [(100, Some 1), (250, Some 2), (700, None)] stopwatch_init))
     = [700, 250, 100]"
proof -
  have t: "0 < time (stopwatch_init\<lparr>time := 100\<rparr>)" by simp
  from laps_newest_first [of "stopwatch_init\<lparr>time := 100\<rparr>" "Some 1" "[]"] t
  have a: "\<exists>l. laps (addLap (Some 1) (stopwatch_init\<lparr>time := 100\<rparr>)) = [l] \<and> lap_total l = 100"
    by (simp add: stopwatch_init_def)
  from laps_newest_first [of stopwatch_init None "[(100, Some 1), (250, Some 2), (700, None)]"]
  have b: "map lap_total
      (laps (take_laps [(100, Some 1), (250, Some 2), (700, None)] stopwatch_init)) = [700, 250, 100]"
    by (simp add: stopwatch_init_def recorded_def)
  from t a b show ?thesis by blast
qed

section \<open>Lemmas on a session of the stopwatch\<close>

lemma addLap_split:
  "addLap resp s = (case addLap_begin s of None \<Rightarrow> s | Some c \<Rightarrow> addLap_finish resp c s)"
  by (cases resp) (simp_all add: addLap_def addLap_begin_def addLap_finish_def Let_def)

lemma reset_split: "reset ok s = reset_finish ok (reset_begin s)"
  by (simp add: reset_def reset_begin_def reset_finish_def Let_def)

lemma session_run_Nil [simp]: "session_run [] st = st"
  by (simp add: session_run_def)

lemma session_run_Cons [simp]: "session_run (ev # evs) st = session_run evs (session_step ev st)"
  by (simp add: session_run_def)

lemma session_run_append [simp]:
  "session_run (evs @ evs') st = session_run evs' (session_run evs st)"
  by (simp add: session_run_def)
























text \<open>
  C3 (amended) says nothing on presses that overlap. When the lap button is pressed
  at 1000 and again at 1500 before the first request is answered, the second press still
  reads the \<^verbatim>\<open>lastLapTime\<close> of before the first lap: its lap time is 1500 and not 500.
\<close>

lemma overlapping_presses:
  "\<not> one_at_a_time overlapping_session session_init \<and>
   map lap_total (laps (sw (session_run overlapping_session session_init))) = [1500, 1000] \<and>
   map lap_delta (laps (sw (session_run overlapping_session session_init))) = [1500, 1000] \<and>
   map lap_time (backend (session_run overlapping_session session_init)) =
     [Div1000 1500, Div1000 1000]"
  by code_simp


section \<open>Lemmas on the alarms component\<close>

lemma alarms_handleAddAlarm:
  "newAlarmTime v \<noteq> [] \<Longrightarrow> alarms (handleAddAlarm (Ok a) v) = alarms v @ [a]"
  by (simp add: handleAddAlarm_def)

text \<open>
  C2. The component holds the alarm 07:30, loaded from the back end. Creating the alarm
  06:00 appends it: the component then enumerates 07:30 before 06:00, which is not
  non-decreasing in the time of day, although the list was before the creation.
\<close>

theorem handleAddAlarm_breaks_order:
  "sorted_by_time (alarms
      (loadAlarms (Ok [\<lparr>alarm_id = 1, alarm_time = ''07:30'', label = ''Despertar'',
                       enabled = True, days = [], created_at = []\<rparr>])
        \<lparr>alarms = [], isLoading = True, showAddForm = True, newAlarmTime = ''06:00'',
         newAlarmLabel = [], newAlarmDays = []\<rparr>)) \<and>
   map alarm_time (alarms
     (handleAddAlarm
        (Ok \<lparr>alarm_id = 2, alarm_time = ''06:00'', label = ''Nueva Alarma'', enabled = True,
             days = [], created_at = []\<rparr>)
        (loadAlarms (Ok [\<lparr>alarm_id = 1, alarm_time = ''07:30'', label = ''Despertar'',
                         enabled = True, days = [], created_at = []\<rparr>])
          \<lparr>alarms = [], isLoading = True, showAddForm = True, newAlarmTime = ''06:00'',
           newAlarmLabel = [], newAlarmDays = []\<rparr>))) = [''07:30'', ''06:00''] \<and>
   \<not> sorted_by_time (alarms
     (handleAddAlarm
        (Ok \<lparr>alarm_id = 2, alarm_time = ''06:00'', label = ''Nueva Alarma'', enabled = True,
             days = [], created_at = []\<rparr>)
        (loadAlarms (Ok [\<lparr>alarm_id = 1, alarm_time = ''07:30'', label = ''Despertar'',
                         enabled = True, days = [], created_at = []\<rparr>])
          \<lparr>alarms = [], isLoading = True, showAddForm = True, newAlarmTime = ''06:00'',
           newAlarmLabel = [], newAlarmDays = []\<rparr>)))"
  by (simp add: handleAddAlarm_def loadAlarms_def sorted_by_time_def is_digit_def digit_val_def)


section \<open>Lemmas on the timezone selector\<close>

lemma favoriteTimezones_saveActiveTimezone [simp]:
  "favoriteTimezones (saveActiveTimezone i st) = favoriteTimezones st"
  by (simp add: saveActiveTimezone_def)

lemma activeTimezoneId_saveActiveTimezone [simp]:
  "activeTimezoneId (saveActiveTimezone i st) = activeTimezoneId st"
  by (simp add: saveActiveTimezone_def)

lemma favoriteTimezones_add:
  "addable st \<Longrightarrow>
     favoriteTimezones (handleAddFavorite (Ok nf) st) =
       DEFAULT_TIMEZONE # non_default (favoriteTimezones st) @ [nf]"
  by (auto simp: addable_def handleAddFavorite_def non_default_def split: option.splits)

lemma non_default_pinned:
  "default_pinned favs \<Longrightarrow> DEFAULT_TIMEZONE # non_default favs = favs"
  by (cases favs) (auto simp: default_pinned_def non_default_def filter_id_conv)

lemma non_default_fixed:
  "DEFAULT_TIMEZONE # non_default favs = favs \<Longrightarrow> default_pinned favs"
proof (cases favs)
  case Nil
  assume "DEFAULT_TIMEZONE # non_default favs = favs"
  with Nil show ?thesis by simp
next
  case (Cons f fs)
  assume eq: "DEFAULT_TIMEZONE # non_default favs = favs"
  with Cons have f: "f = DEFAULT_TIMEZONE" and t: "non_default (f # fs) = fs" by auto
  from f t have "filter (\<lambda>g. fav_id g \<noteq> fav_id DEFAULT_TIMEZONE) fs = fs"
    by (simp add: non_default_def)
  then have "\<forall>g \<in> set fs. fav_id g \<noteq> fav_id DEFAULT_TIMEZONE"
    by (simp add: filter_id_conv)
  with f Cons show ?thesis by (simp add: default_pinned_def)
qed

lemma default_pinned_load:
  "(\<forall>fs. favResp = Ok fs \<longrightarrow> list_all foreign fs) \<Longrightarrow>
     default_pinned (favoriteTimezones (loadInitialData tzResp favResp st0))"
  by (cases favResp)
     (simp_all add: default_pinned_def loadInitialData_def Let_def foreign_def list_all_iff
        split: option.splits)

lemma default_pinned_add:
  assumes "default_pinned (favoriteTimezones st)" and "foreign_answer (AddFavorite resp)"
  shows "default_pinned (favoriteTimezones (handleAddFavorite resp st))"
proof (cases "addable st \<and> (\<exists>nf. resp = Ok nf)")
  case True
  then obtain nf where nf: "resp = Ok nf" and a: "addable st" by blast
  from assms(2) nf have "fav_id nf \<noteq> fav_id DEFAULT_TIMEZONE" by (simp add: foreign_def)
  with favoriteTimezones_add [OF a, of nf] non_default_pinned [OF assms(1)] assms(1) nf
  show ?thesis by (cases "favoriteTimezones st") (auto simp: default_pinned_def)
next
  case False
  then have "favoriteTimezones (handleAddFavorite resp st) = favoriteTimezones st"
    by (auto simp: addable_def handleAddFavorite_def split: option.splits api_result.splits)
  with assms(1) show ?thesis by simp
qed

lemma default_pinned_remove:
  "default_pinned (favoriteTimezones st) \<Longrightarrow>
     default_pinned (favoriteTimezones (handleRemoveFavorite i ok st))"
  by (cases "favoriteTimezones st")
     (auto simp: default_pinned_def handleRemoveFavorite_def Let_def)

lemma default_pinned_set_active:
  "default_pinned (favoriteTimezones st) \<Longrightarrow>
     default_pinned (favoriteTimezones (handleSetActiveTimezone i st))"
  by (simp add: handleSetActiveTimezone_def Let_def split: option.splits)

lemma default_pinned_step:
  "default_pinned (favoriteTimezones st) \<Longrightarrow> foreign_answer ev \<Longrightarrow>
     default_pinned (favoriteTimezones (selector_step ev st))"
  by (cases ev)
     (simp_all add: default_pinned_add default_pinned_remove default_pinned_set_active)

lemma default_pinned_run:
  "default_pinned (favoriteTimezones st) \<Longrightarrow> list_all foreign_answer evs \<Longrightarrow>
     default_pinned (favoriteTimezones (selector_run evs st))"
  unfolding selector_run_def
  by (induction evs arbitrary: st) (simp_all add: default_pinned_step)

text \<open>
  C4 (amended). When the selection names an available timezone that is not among the
  favourites and the back end accepts it, the favourite the back end answered becomes the
  last element of the list; in front of it stand the default timezone and then the earlier
  favourites that do not carry the id \<^verbatim>\<open>colombia-bogota\<close>, in their previous order. The
  result is the previous list with the new favourite appended exactly when the previous
  list was the default timezone followed by favourites of other ids. The list has that
  form after loading and any sequence of user actions, provided neither the favourites
  that the back end listed nor the favourites it answered to an addition carry the id
  \<^verbatim>\<open>colombia-bogota\<close>.
\<close>

theorem add_favorite_appends:
  "(addable st \<longrightarrow>
      favoriteTimezones (handleAddFavorite (Ok nf) st) =
        DEFAULT_TIMEZONE # filter foreign (favoriteTimezones st) @ [nf] \<and>
      (favoriteTimezones (handleAddFavorite (Ok nf) st) = favoriteTimezones st @ [nf] \<longleftrightarrow>
         default_pinned (favoriteTimezones st))) \<and>
   ((\<forall>fs. favResp = Ok fs \<longrightarrow> list_all foreign fs) \<and> list_all foreign_answer evs \<longrightarrow>
      default_pinned
        (favoriteTimezones (selector_run evs (loadInitialData tzResp favResp st0))))"
proof -
  have nd: "filter foreign (favoriteTimezones st) = non_default (favoriteTimezones st)"
    by (simp add: non_default_def foreign_def [abs_def])
  have run: "default_pinned
        (favoriteTimezones (selector_run evs (loadInitialData tzResp favResp st0)))"
    if "\<forall>fs. favResp = Ok fs \<longrightarrow> list_all foreign fs" and "list_all foreign_answer evs"
    using default_pinned_run [OF default_pinned_load [OF that(1)] that(2)] .
  have add: "favoriteTimezones (handleAddFavorite (Ok nf) st) =
        DEFAULT_TIMEZONE # filter foreign (favoriteTimezones st) @ [nf] \<and>
      (favoriteTimezones (handleAddFavorite (Ok nf) st) = favoriteTimezones st @ [nf] \<longleftrightarrow>
         default_pinned (favoriteTimezones st))" if a: "addable st"
  proof -
    have eq: "favoriteTimezones (handleAddFavorite (Ok nf) st) =
        (DEFAULT_TIMEZONE # non_default (favoriteTimezones st)) @ [nf]"
      using favoriteTimezones_add [OF a] by simp
    have "(DEFAULT_TIMEZONE # non_default (favoriteTimezones st)) @ [nf] =
            favoriteTimezones st @ [nf] \<longleftrightarrow>
          DEFAULT_TIMEZONE # non_default (favoriteTimezones st) = favoriteTimezones st"
      by (rule append_same_eq)
    also have "\<dots> \<longleftrightarrow> default_pinned (favoriteTimezones st)"
      using non_default_pinned [of "favoriteTimezones st"]
        non_default_fixed [of "favoriteTimezones st"] by blast
    finally show ?thesis using eq nd by simp
  qed
  from add run show ?thesis by blast
qed

lemma two_favorites_eq:
  "two_favorites = \<lparr>availableTimezones = [paris_tz], favoriteTimezones = [DEFAULT_TIMEZONE, tokyo],
     selectedCountry = ''Francia'', selectedCity = ''Paris'',
     activeTimezoneId = Some ''colombia-bogota'', error = None, stored_active = None,
     reported = Some DEFAULT_TIMEZONE\<rparr>"
  by (simp add: two_favorites_def selector_run_def loadInitialData_def selector_init_def
      DEFAULT_TIMEZONE_def Let_def)

theorem add_favorite_appends_witness:
  "addable two_favorites \<and> list_all foreign [tokyo] \<and>
   list_all foreign_answer [SelectCountry ''Francia'', SelectCity ''Paris''] \<and>
   default_pinned (favoriteTimezones two_favorites) \<and>
   favoriteTimezones two_favorites = [DEFAULT_TIMEZONE, tokyo] \<and>
   favoriteTimezones (handleAddFavorite (Ok paris) two_favorites) =
     [DEFAULT_TIMEZONE, tokyo, paris]"
proof -
  have a: "addable two_favorites"
    by (simp add: two_favorites_eq addable_def paris_tz_def tokyo_def DEFAULT_TIMEZONE_def)
  have f: "list_all foreign [tokyo]"
    by (simp add: foreign_def tokyo_def DEFAULT_TIMEZONE_def)
  have e: "list_all foreign_answer [SelectCountry ''Francia'', SelectCity ''Paris'']"
    by simp
  have l: "favoriteTimezones two_favorites = [DEFAULT_TIMEZONE, tokyo]"
    by (simp add: two_favorites_eq)
  note th = add_favorite_appends [of two_favorites paris "Ok [tokyo]"
      "[SelectCountry ''Francia'', SelectCity ''Paris'']" "Ok [paris_tz]" "selector_init None"]
  from th f e have p: "default_pinned (favoriteTimezones two_favorites)"
    unfolding two_favorites_def by blast
  from th a p have "favoriteTimezones (handleAddFavorite (Ok paris) two_favorites) =
      favoriteTimezones two_favorites @ [paris]"
    by blast
  with a f e p l show ?thesis by simp
qed

text \<open>
  C4 as stated fails when the back end's list of favourites holds an entry with the id
  \<^verbatim>\<open>colombia-bogota\<close>: the component shows the default timezone, Tokyo and that entry;
  Paris is not among them and is added; the entry is dropped, so the earlier favourites
  are not all kept.
\<close>

lemma duplicate_loaded_eq:
  "duplicate_loaded = \<lparr>availableTimezones = [paris_tz],
     favoriteTimezones = [DEFAULT_TIMEZONE, tokyo, bogota_dc],
     selectedCountry = ''Francia'', selectedCity = ''Paris'',
     activeTimezoneId = Some ''colombia-bogota'', error = None, stored_active = None,
     reported = Some DEFAULT_TIMEZONE\<rparr>"
  by (simp add: duplicate_loaded_def selector_run_def loadInitialData_def selector_init_def
      DEFAULT_TIMEZONE_def Let_def)

theorem add_favorite_drops_duplicate_counterexample:
  "addable duplicate_loaded \<and>
   favoriteTimezones duplicate_loaded = [DEFAULT_TIMEZONE, tokyo, bogota_dc] \<and>
   favoriteTimezones (handleAddFavorite (Ok paris) duplicate_loaded) =
     [DEFAULT_TIMEZONE, tokyo, paris] \<and>
   favoriteTimezones (handleAddFavorite (Ok paris) duplicate_loaded) \<noteq>
     favoriteTimezones duplicate_loaded @ [paris] \<and>
   bogota_dc \<notin> set (favoriteTimezones (handleAddFavorite (Ok paris) duplicate_loaded))"
proof -
  have a: "addable duplicate_loaded"
    by (simp add: duplicate_loaded_eq addable_def paris_tz_def tokyo_def bogota_dc_def
        DEFAULT_TIMEZONE_def)
  have f: "favoriteTimezones (handleAddFavorite (Ok paris) duplicate_loaded) =
     [DEFAULT_TIMEZONE, tokyo, paris]"
    using favoriteTimezones_add [OF a, of paris]
    by (simp add: duplicate_loaded_eq non_default_def tokyo_def bogota_dc_def DEFAULT_TIMEZONE_def)
  have "tokyo \<noteq> bogota_dc" "bogota_dc \<noteq> DEFAULT_TIMEZONE" "bogota_dc \<noteq> paris"
    by (simp_all add: tokyo_def bogota_dc_def DEFAULT_TIMEZONE_def paris_def)
  with a f show ?thesis by (auto simp: duplicate_loaded_eq)
qed

lemma default_first_load: "default_first (loadInitialData tzResp favResp st)"
  by (simp add: default_first_def loadInitialData_def Let_def split: option.splits)

lemma default_first_add: "default_first st \<Longrightarrow> default_first (handleAddFavorite resp st)"
  by (auto simp: default_first_def handleAddFavorite_def split: option.splits api_result.splits list.splits)

lemma default_first_add_ok: "addable st \<Longrightarrow> default_first (handleAddFavorite (Ok nf) st)"
  by (simp add: default_first_def favoriteTimezones_add)

lemma default_first_remove:
  "default_first st \<Longrightarrow> default_first (handleRemoveFavorite i ok st)"
  by (auto simp: default_first_def handleRemoveFavorite_def Let_def split: list.splits)

lemma default_first_set_active:
  "default_first st \<Longrightarrow> default_first (handleSetActiveTimezone i st)"
  by (auto simp: default_first_def handleSetActiveTimezone_def Let_def split: option.splits)

lemma default_first_step: "default_first st \<Longrightarrow> default_first (selector_step ev st)"
  by (cases ev) (simp_all add: default_first_add default_first_remove default_first_set_active,
      simp_all add: default_first_def)

lemma default_first_run: "default_first st \<Longrightarrow> default_first (selector_run evs st)"
  unfolding selector_run_def by (induction evs arbitrary: st) (simp_all add: default_first_step)

lemma remove_default_refused:
  "handleRemoveFavorite (fav_id DEFAULT_TIMEZONE) ok st =
     st\<lparr>error := Some ''No puedes eliminar la zona horaria de Colombia''\<rparr>"
  by (simp add: handleRemoveFavorite_def)

lemma remove_active_resets:
  "i \<noteq> fav_id DEFAULT_TIMEZONE \<Longrightarrow> activeTimezoneId st = Some i \<Longrightarrow>
     activeTimezoneId (handleRemoveFavorite i True st) = Some (fav_id DEFAULT_TIMEZONE) \<and>
     reported (handleRemoveFavorite i True st) = Some DEFAULT_TIMEZONE \<and>
     stored_active (handleRemoveFavorite i True st) = Some (fav_id DEFAULT_TIMEZONE)"
  by (simp add: handleRemoveFavorite_def Let_def saveActiveTimezone_def DEFAULT_TIMEZONE_def)

text \<open>
  C10. After loading and any sequence of user actions the default timezone
  (\<^verbatim>\<open>colombia-bogota\<close>) is the first favourite; an accepted addition puts it first, a
  removal keeps it first. A request to remove the default timezone changes nothing but the
  error message. Removing another favourite that is the active one makes the default
  timezone active and reports it to the page.
\<close>

theorem default_timezone_pinned:
  "default_first (selector_run evs (loadInitialData tzResp favResp st0)) \<and>
   (addable st \<longrightarrow> default_first (handleAddFavorite (Ok nf) st)) \<and>
   (default_first st \<longrightarrow> default_first (handleRemoveFavorite i ok st)) \<and>
   handleRemoveFavorite (fav_id DEFAULT_TIMEZONE) ok st =
     st\<lparr>error := Some ''No puedes eliminar la zona horaria de Colombia''\<rparr> \<and>
   (i \<noteq> fav_id DEFAULT_TIMEZONE \<and> activeTimezoneId st = Some i \<longrightarrow>
      activeTimezoneId (handleRemoveFavorite i True st) = Some (fav_id DEFAULT_TIMEZONE) \<and>
      reported (handleRemoveFavorite i True st) = Some DEFAULT_TIMEZONE)"
  using default_first_run [OF default_first_load, of evs tzResp favResp st0]
    default_first_add_ok [of st nf] default_first_remove [of st i ok]
    remove_default_refused [of ok st] remove_active_resets [of i st]
  by blast

lemma tokyo_active_eq:
  "tokyo_active = \<lparr>availableTimezones = [paris_tz], favoriteTimezones = [DEFAULT_TIMEZONE, tokyo],
     selectedCountry = ''Francia'', selectedCity = ''Paris'',
     activeTimezoneId = Some ''japon-tokyo'', error = None, stored_active = Some ''japon-tokyo'',
     reported = Some tokyo\<rparr>"
  by (simp add: tokyo_active_def two_favorites_eq handleSetActiveTimezone_def
      saveActiveTimezone_def Let_def DEFAULT_TIMEZONE_def tokyo_def)

theorem default_timezone_pinned_witness:
  "addable tokyo_active \<and> default_first tokyo_active \<and>
   ''japon-tokyo'' \<noteq> fav_id DEFAULT_TIMEZONE \<and>
   activeTimezoneId tokyo_active = Some ''japon-tokyo'' \<and>
   default_first (handleAddFavorite (Ok paris) tokyo_active) \<and>
   default_first (handleRemoveFavorite ''japon-tokyo'' True tokyo_active) \<and>
   favoriteTimezones (handleRemoveFavorite ''japon-tokyo'' True tokyo_active) = [DEFAULT_TIMEZONE] \<and>
   activeTimezoneId (handleRemoveFavorite ''japon-tokyo'' True tokyo_active) =
     Some (fav_id DEFAULT_TIMEZONE) \<and>
   favoriteTimezones (handleRemoveFavorite (fav_id DEFAULT_TIMEZONE) True tokyo_active) =
     favoriteTimezones tokyo_active \<and>
   error (handleRemoveFavorite (fav_id DEFAULT_TIMEZONE) True tokyo_active) =
     Some ''No puedes eliminar la zona horaria de Colombia''"
proof -
  have a: "addable tokyo_active"
    by (simp add: tokyo_active_eq addable_def paris_tz_def tokyo_def DEFAULT_TIMEZONE_def)
  have d: "default_first tokyo_active"
    by (simp add: tokyo_active_eq default_first_def)
  have n: "''japon-tokyo'' \<noteq> fav_id DEFAULT_TIMEZONE"
    by (simp add: DEFAULT_TIMEZONE_def)
  have t: "activeTimezoneId tokyo_active = Some ''japon-tokyo''"
    by (simp add: tokyo_active_eq)
  have f: "favoriteTimezones (handleRemoveFavorite ''japon-tokyo'' True tokyo_active) =
      [DEFAULT_TIMEZONE]"
    by (simp add: tokyo_active_eq handleRemoveFavorite_def Let_def DEFAULT_TIMEZONE_def
        tokyo_def)
  from default_timezone_pinned [of "[]" "Ok []" "Ok []" "selector_init None" tokyo_active paris
      "''japon-tokyo''" True] a d n t f
  show ?thesis by simp
qed


section \<open>Lemmas on the snooze marker\<close>
















section \<open>Lemmas on rings and snoozes\<close>


lemma label_postponed [simp]:
  "label (postponed t a) = label a @ snooze_suffix (alarm_time a)"
  by (simp add: postponed_def)


lemma is_postponed_postponed [simp]: "is_postponed a (postponed t a)"
  by (simp add: is_postponed_def postponed_def)








lemma cycle_run_Nil [simp]: "cycle_run [] s = s"
  by (simp add: cycle_run_def)

lemma cycle_run_Cons [simp]: "cycle_run (ev # evs) s = cycle_run evs (cycle_step ev s)"
  by (simp add: cycle_run_def)

lemma cycle_run_append [simp]: "cycle_run (evs @ evs') s = cycle_run evs' (cycle_run evs s)"
  by (simp add: cycle_run_def)








section \<open>Lemmas on the snooze time\<close>

lemma is_digit_digit_char [simp]: "is_digit (digit_char n)"
  by (simp add: is_digit_def digit_char_def)

lemma digit_val_digit_char [simp]: "digit_val (digit_char n) = n mod 10"
  by (simp add: digit_val_def digit_char_def)










text \<open>
  The restoring request is sent one second after the ring. When the user snoozes the
  second ring within that second, the snooze stores 07:10 with the marker, and the timer
  then stores the original record over it: the snooze is lost.
\<close>

lemma late_restore_overwrites_snooze:
  "stored (cycle_run (butlast snoozed_within_the_second) (cycle_init gym)) =
     alarm_at 1 ''07:10'' ''Gym (Pospuesta desde 07:00)'' \<and>
   timers (cycle_run (butlast snoozed_within_the_second) (cycle_init gym)) \<noteq> [] \<and>
   stored (cycle_run snoozed_within_the_second (cycle_init gym)) = gym"
  by code_simp


section \<open>Lemmas on the alarm check\<close>

lemma first_due_Some:
  "first_due dis t d als = Some a \<Longrightarrow>
     a \<in> set als \<and> alarm_time a = t \<and> shouldAlarmRingToday a d \<and> (alarm_id a, t) \<notin> dis"
  by (induction als) (auto split: if_splits)

lemma first_due_first:
  "first_due dis t d als = Some a \<Longrightarrow>
     \<exists>before after. als = before @ a # after \<and>
       (\<forall>b \<in> set before. (alarm_id b, t) \<in> dis \<or> alarm_time b \<noteq> t \<or> \<not> shouldAlarmRingToday b d)"
proof (induction als)
  case Nil
  then show ?case by simp
next
  case (Cons x xs)
  show ?case
  proof (cases "(alarm_id x, t) \<notin> dis \<and> alarm_time x = t \<and> shouldAlarmRingToday x d")
    case True
    with Cons.prems have "x = a" by simp
    then have "x # xs = [] @ a # xs \<and>
       (\<forall>b \<in> set []. (alarm_id b, t) \<in> dis \<or> alarm_time b \<noteq> t \<or> \<not> shouldAlarmRingToday b d)"
      by simp
    then show ?thesis by blast
  next
    case False
    with Cons.prems have "first_due dis t d xs = Some a" by (auto split: if_splits)
    from Cons.IH [OF this] obtain before after where
      xs: "xs = before @ a # after" and
      bf: "\<forall>b \<in> set before. (alarm_id b, t) \<in> dis \<or> alarm_time b \<noteq> t \<or> \<not> shouldAlarmRingToday b d"
      by blast
    have "x # xs = (x # before) @ a # after" using xs by simp
    moreover have "\<forall>b \<in> set (x # before).
        (alarm_id b, t) \<in> dis \<or> alarm_time b \<noteq> t \<or> \<not> shouldAlarmRingToday b d"
      using False bf by auto
    ultimately show ?thesis by blast
  qed
qed

lemma ringingAlarm_triggerAlarm: "ringingAlarm (fst (triggerAlarm a p)) = Some a"
  by (simp add: triggerAlarm_def)

text \<open>
  What \<^verbatim>\<open>checkAlarms\<close> does with the cells its closure sees: the ringing alarm changes only
  to an enabled alarm of the fetched list whose time is the current time and that rings
  today, the first such alarm that is not dismissed, and only when the closure sees no
  ringing alarm.
\<close>

lemma checkAlarms_starts_only_due:
  assumes new: "ringingAlarm (fst (checkAlarms seen now resp p)) \<noteq> ringingAlarm p"
  shows "\<exists>a als. resp = Ok als \<and> ringingAlarm (fst (checkAlarms seen now resp p)) = Some a \<and>
           a \<in> set als \<and> enabled a \<and>
           alarm_time a = fst (current_reading (activeTimezoneRef p) now) \<and>
           shouldAlarmRingToday a (snd (current_reading (activeTimezoneRef p) now)) \<and>
           seen_ringingAlarm seen = None \<and>
           first_due (seen_dismissedAlarms seen) (fst (current_reading (activeTimezoneRef p) now))
             (snd (current_reading (activeTimezoneRef p) now)) (filter enabled als) = Some a"
proof -
  obtain t d where cr: "current_reading (activeTimezoneRef p) now = (t, d)"
    by (cases "current_reading (activeTimezoneRef p) now")
  from new cr have 1: "t \<noteq> seen_lastCheckedTime seen" and 2: "seen_ringingAlarm seen = None"
    by (auto simp: checkAlarms_def Let_def split: if_splits)
  from new cr 1 2 obtain als where 3: "resp = Ok als"
    by (cases resp) (auto simp: checkAlarms_def Let_def)
  from new cr 1 2 3 obtain a where 4: "first_due (seen_dismissedAlarms seen) t d (filter enabled als) = Some a"
    by (cases "first_due (seen_dismissedAlarms seen) t d (filter enabled als)")
       (auto simp: checkAlarms_def Let_def)
  from cr 1 2 3 4 have 5: "ringingAlarm (fst (checkAlarms seen now resp p)) = Some a"
    by (simp add: checkAlarms_def Let_def triggerAlarm_def)
  from first_due_Some [OF 4] cr 2 3 4 5 show ?thesis by auto
qed

text \<open>
  C8. The periodic check at 07:00 makes alarm A ring. While A is ringing, the periodic
  check at 07:01 triggers alarm B: the closure called by the interval still sees no ringing
  alarm, so the guard \<^verbatim>\<open>if (ringingAlarm) return\<close> never stops it.
\<close>

theorem periodic_check_rings_over_ringing:
  "ringingAlarm (fst (periodic_check (clock 7 0 1)
       (Ok [alarm_at 1 ''07:00'' ''A'', alarm_at 2 ''07:01'' ''B'']) provider_init)) =
     Some (alarm_at 1 ''07:00'' ''A'') \<and>
   ringingAlarm (fst (periodic_check (clock 7 1 1)
       (Ok [alarm_at 1 ''07:00'' ''A'', alarm_at 2 ''07:01'' ''B''])
       (fst (periodic_check (clock 7 0 1)
          (Ok [alarm_at 1 ''07:00'' ''A'', alarm_at 2 ''07:01'' ''B'']) provider_init)))) =
     Some (alarm_at 2 ''07:01'' ''B'')"
  by code_simp


section \<open>The ring invariant under linking and unlinking\<close>

subsection \<open>Rotation\<close>

lemma cyclic_rotate1: "cyclic l xs \<Longrightarrow> cyclic l (rotate1 xs)"
  unfolding cyclic_def
  by (metis distinct1_rotate length_rotate1 rotate1_map set_rotate1)

lemma cyclic_rotate: "cyclic l xs \<Longrightarrow> cyclic l (rotate n xs)"
  by (induction n) (simp_all add: cyclic_rotate1)

lemma cyclic_swap: "cyclic l (as @ bs) \<Longrightarrow> cyclic l (bs @ as)"
  using cyclic_rotate [of l "as @ bs" "length as"] by (simp add: rotate_append)

lemma cyclic_mem_dom: "cyclic l xs \<Longrightarrow> a \<in> set xs \<Longrightarrow> \<exists>n. nodes l a = Some n"
  unfolding cyclic_def by blast

lemma cyclic_fresh: "cyclic l xs \<Longrightarrow> fresh l \<notin> set xs"
  unfolding cyclic_def by blast

lemma cyclic_fresh_node: "cyclic l xs \<Longrightarrow> nodes l (fresh l) = None"
  unfolding cyclic_def by blast

lemma cyclic_next_head: "cyclic l (t # ys) \<Longrightarrow> map (next_of l) (t # ys) = ys @ [t]"
  unfolding cyclic_def by simp

lemma cyclic_previous_head: "cyclic l (t # ys) \<Longrightarrow> map (previous_of l) (ys @ [t]) = t # ys"
  unfolding cyclic_def by simp

lemma cyclic_previous_of_head: "cyclic l (t # ys) \<Longrightarrow> previous_of l t = last (t # ys)"
proof -
  assume "cyclic l (t # ys)"
  then have "map (previous_of l) (ys @ [t]) = t # ys" by (rule cyclic_previous_head)
  then have "last (map (previous_of l) (ys @ [t])) = last (t # ys)" by simp
  then show ?thesis by (simp add: last_map)
qed

lemma cyclic_next_of_head: "cyclic l (t # ys) \<Longrightarrow> next_of l t = hd (ys @ [t])"
proof -
  assume "cyclic l (t # ys)"
  then have "map (next_of l) (t # ys) = ys @ [t]" by (rule cyclic_next_head)
  then have "hd (map (next_of l) (t # ys)) = hd (ys @ [t])" by simp
  then show ?thesis by simp
qed


subsection \<open>Linking a node\<close>

lemma next_of_link_before:
  assumes "nodes l t = Some nt" "nodes l (previous_of l t) = Some np" "nodes l (fresh l) = None"
  shows "next_of (link_before t v l) a =
           (if a = fresh l then t else if a = previous_of l t then fresh l else next_of l a)"
  using assms
  by (auto simp: link_before_def Let_def set_next_def set_previous_def next_of_def
      split: option.splits)

lemma previous_of_link_before:
  assumes "nodes l t = Some nt" "nodes l (previous_of l t) = Some np" "nodes l (fresh l) = None"
  shows "previous_of (link_before t v l) a =
           (if a = t then fresh l else if a = fresh l then previous_of l t else previous_of l a)"
  using assms
  by (auto simp: link_before_def Let_def set_next_def set_previous_def previous_of_def
      split: option.splits)

lemma payload_link_before:
  assumes "nodes l t = Some nt" "nodes l (previous_of l t) = Some np" "nodes l (fresh l) = None"
  shows "payload (link_before t v l) a = (if a = fresh l then Some v else payload l a)"
  using assms
  by (auto simp: link_before_def Let_def set_next_def set_previous_def payload_def previous_of_def
      split: option.splits)

lemma dom_link_before:
  assumes "nodes l t = Some nt" "nodes l (previous_of l t) = Some np" "nodes l (fresh l) = None"
  shows "dom (nodes (link_before t v l)) = insert (fresh l) (dom (nodes l))"
  using assms
  by (auto simp: link_before_def Let_def set_next_def set_previous_def previous_of_def
      split: option.splits if_splits)

lemma misc_link_before:
  "count (link_before t v l) = Suc (count l)" "fresh (link_before t v l) = Suc (fresh l)"
  "head (link_before t v l) = head l"
  by (simp_all add: link_before_def Let_def set_next_def set_previous_def split: option.splits)


lemma cyclic_link_head:
  assumes c: "cyclic l (t # ys)"
  shows "cyclic (link_before t v l) (t # ys @ [fresh l])"
proof -
  let ?new = "fresh l" and ?l' = "link_before t v l"
  define p where "p = previous_of l t"
  have p: "p = last (t # ys)" using cyclic_previous_of_head [OF c] by (simp add: p_def)
  then have p_in: "p \<in> set (t # ys)" using last_in_set [of "t # ys"] by simp
  from cyclic_mem_dom [OF c, of t] obtain nt where nt: "nodes l t = Some nt" by auto
  from cyclic_mem_dom [OF c p_in] obtain np where np: "nodes l (previous_of l t) = Some np"
    by (auto simp: p_def)
  note fr = cyclic_fresh_node [OF c]
  have new_notin: "?new \<notin> set (t # ys)" by (rule cyclic_fresh [OF c])
  have dist: "distinct (t # ys)" using c by (simp add: cyclic_def)
  have nx: "next_of ?l' a = (if a = ?new then t else if a = p then ?new else next_of l a)" for a
    unfolding p_def by (rule next_of_link_before [OF nt np fr])
  have pv: "previous_of ?l' a = (if a = t then ?new else if a = ?new then p else previous_of l a)"
    for a unfolding p_def by (rule previous_of_link_before [OF nt np fr])
  define bl where "bl = butlast (t # ys)"
  have snoc: "t # ys = bl @ [p]" unfolding bl_def p by simp
  have p_notin_bl: "p \<notin> set bl" using dist unfolding snoc by simp
  have new_notin_bl: "?new \<notin> set bl" using new_notin unfolding snoc by simp
  have old_next: "map (next_of l) (bl @ [p]) = ys @ [t]"
    using cyclic_next_head [OF c] by (simp only: snoc)
  then have "butlast (map (next_of l) (bl @ [p])) = butlast (ys @ [t])" by simp
  then have old_next_bl: "map (next_of l) bl = ys" by (simp add: map_butlast [symmetric])
  have "map (next_of ?l') bl = map (next_of l) bl"
    using p_notin_bl new_notin_bl by (intro map_cong) (auto simp: nx)
  with old_next_bl have "map (next_of ?l') (bl @ [p]) = ys @ [?new]"
    using new_notin p_in by (auto simp: nx)
  then have next1: "map (next_of ?l') (t # ys) = ys @ [?new]" by (simp only: snoc)
  have next': "map (next_of ?l') (t # ys @ [?new]) = rotate1 (t # ys @ [?new])"
    using next1 by (simp add: nx)
  have old_prev: "map (previous_of l) (ys @ [t]) = t # ys" by (rule cyclic_previous_head [OF c])
  then have "butlast (map (previous_of l) (ys @ [t])) = butlast (t # ys)" by simp
  then have old_prev_ys: "map (previous_of l) ys = bl" by (simp add: map_butlast [symmetric] bl_def)
  have t_notin: "t \<notin> set ys" using dist by simp
  have new_notin_ys: "?new \<notin> set ys" using new_notin by simp
  have "map (previous_of ?l') ys = map (previous_of l) ys"
    using t_notin new_notin_ys by (intro map_cong) (auto simp: pv)
  with old_prev_ys have "map (previous_of ?l') (ys @ [?new, t]) = bl @ [p, ?new]"
    using new_notin by (auto simp: pv)
  also have "\<dots> = (t # ys) @ [?new]" by (simp only: snoc) simp
  finally have prev': "map (previous_of ?l') (rotate1 (t # ys @ [?new])) = t # ys @ [?new]"
    by simp
  have "dom (nodes ?l') = set (t # ys @ [?new])"
    using dom_link_before [OF nt np fr, of v] c by (auto simp: cyclic_def)
  moreover have "distinct (t # ys @ [?new])" using dist new_notin by auto
  moreover have "length (t # ys @ [?new]) = count ?l'"
    using c by (simp add: cyclic_def misc_link_before)
  moreover have "\<forall>a \<in> set (t # ys @ [?new]). a < fresh ?l'"
    using c by (auto simp: cyclic_def misc_link_before less_Suc_eq)
  ultimately show ?thesis using next' prev' unfolding cyclic_def by blast
qed

lemma cyclic_link_before:
  assumes "cyclic l (as @ t # bs)"
  shows "cyclic (link_before t v l) (as @ fresh l # t # bs)"
proof -
  from assms have "cyclic l ((t # bs) @ as)" by (rule cyclic_swap)
  then have "cyclic l (t # (bs @ as))" by simp
  then have "cyclic (link_before t v l) (t # (bs @ as) @ [fresh l])" by (rule cyclic_link_head)
  then have "cyclic (link_before t v l) ((t # bs) @ (as @ [fresh l]))" by simp
  then have "cyclic (link_before t v l) ((as @ [fresh l]) @ (t # bs))" by (rule cyclic_swap)
  then show ?thesis by simp
qed

lemma payload_link_cyclic:
  assumes "cyclic l xs" "t \<in> set xs"
  shows "payload (link_before t v l) a = (if a = fresh l then Some v else payload l a)"
proof -
  from assms obtain as bs where xs: "xs = as @ t # bs" by (auto simp: in_set_conv_decomp)
  with assms have c: "cyclic l (t # (bs @ as))" using cyclic_swap [of l as "t # bs"] by simp
  from cyclic_mem_dom [OF c, of t] obtain nt where nt: "nodes l t = Some nt" by auto
  have "previous_of l t \<in> set (t # (bs @ as))"
    using cyclic_previous_of_head [OF c] last_in_set [of "t # (bs @ as)"] by simp
  from cyclic_mem_dom [OF c this] obtain np where np: "nodes l (previous_of l t) = Some np" by auto
  show ?thesis by (rule payload_link_before [OF nt np cyclic_fresh_node [OF c]])
qed


subsection \<open>Unlinking a node\<close>

lemma next_of_unlink:
  assumes "1 < count l" "nodes l t = Some nt" "nodes l (previous_of l t) = Some np"
    "nodes l (next_of l t) = Some nn"
  shows "next_of (unlink t l) a =
           (if a = t then t else if a = previous_of l t then next_of l t else next_of l a)"
  using assms
  by (auto simp: unlink_def Let_def set_next_def set_previous_def next_of_def previous_of_def
      split: option.splits)

lemma previous_of_unlink:
  assumes "1 < count l" "nodes l t = Some nt" "nodes l (previous_of l t) = Some np"
    "nodes l (next_of l t) = Some nn"
  shows "previous_of (unlink t l) a =
           (if a = t then t else if a = next_of l t then previous_of l t else previous_of l a)"
  using assms
  by (auto simp: unlink_def Let_def set_next_def set_previous_def next_of_def previous_of_def
      split: option.splits)

lemma payload_unlink:
  "payload (unlink t l) a = (if a = t then None else payload l a)"
  by (auto simp: unlink_def Let_def set_next_def set_previous_def payload_def
      split: option.splits)

lemma dom_unlink: "dom (nodes (unlink t l)) = dom (nodes l) - {t}"
  by (auto simp: unlink_def Let_def set_next_def set_previous_def
      split: option.splits if_splits)

lemma misc_unlink:
  "fresh (unlink t l) = fresh l"
  "1 < count l \<Longrightarrow> count (unlink t l) = count l - 1"
  "1 < count l \<Longrightarrow> head (unlink t l) = (if head l = Some t then Some (next_of l t) else head l)"
  by (simp_all add: unlink_def Let_def set_next_def set_previous_def split: option.splits)

lemma cyclic_unlink_head:
  assumes c: "cyclic l (t # ys)" and ne: "ys \<noteq> []"
  shows "cyclic (unlink t l) ys"
proof -
  let ?l' = "unlink t l"
  have cnt: "1 < count l" using c ne by (cases ys) (auto simp: cyclic_def)
  have dist: "distinct (t # ys)" using c by (simp add: cyclic_def)
  define p where "p = previous_of l t"
  define n where "n = next_of l t"
  have p: "p = last ys" using cyclic_previous_of_head [OF c] ne by (simp add: p_def)
  have n: "n = hd ys" using cyclic_next_of_head [OF c] ne by (simp add: n_def)
  have p_in: "p \<in> set ys" and n_in: "n \<in> set ys" using p n ne by simp_all
  from cyclic_mem_dom [OF c, of t] obtain nt where nt: "nodes l t = Some nt" by auto
  from cyclic_mem_dom [OF c, of p] p_in obtain np where np: "nodes l (previous_of l t) = Some np"
    by (auto simp: p_def)
  from cyclic_mem_dom [OF c, of n] n_in obtain nn where nn: "nodes l (next_of l t) = Some nn"
    by (auto simp: n_def)
  have nx: "next_of ?l' a = (if a = t then t else if a = p then n else next_of l a)" for a
    unfolding p_def n_def by (rule next_of_unlink [OF cnt nt np nn])
  have pv: "previous_of ?l' a = (if a = t then t else if a = n then p else previous_of l a)" for a
    unfolding p_def n_def by (rule previous_of_unlink [OF cnt nt np nn])
  define bl where "bl = butlast ys"
  have snoc: "ys = bl @ [p]" unfolding bl_def p using ne by simp
  have cons: "ys = n # tl ys" unfolding n using ne by simp
  have t_notin: "t \<notin> set ys" using dist by simp
  have p_notin_bl: "p \<notin> set bl" using dist snoc by (metis distinct.simps(2) distinct1_rotate rotate1.simps(2))
  have n_notin_tl: "n \<notin> set (tl ys)" using dist cons by (metis distinct.simps(2))
  have "map (next_of l) (t # ys) = ys @ [t]" by (rule cyclic_next_head [OF c])
  then have "map (next_of l) ys = tl ys @ [t]" using ne by (cases ys) auto
  then have "butlast (map (next_of l) ys) = tl ys" by simp
  then have old_next_bl: "map (next_of l) bl = tl ys" by (simp add: map_butlast bl_def)
  have "map (next_of ?l') bl = map (next_of l) bl"
    using p_notin_bl t_notin snoc by (intro map_cong) (auto simp: nx)
  with old_next_bl have "map (next_of ?l') (bl @ [p]) = tl ys @ [n]"
    using t_notin p_in by (auto simp: nx)
  then have next': "map (next_of ?l') ys = rotate1 ys"
    using ne by (simp add: snoc [symmetric] rotate1_hd_tl n)
  have "map (previous_of l) (ys @ [t]) = t # ys" by (rule cyclic_previous_head [OF c])
  then have "map (previous_of l) ys = butlast (t # ys)"
    by (metis butlast_snoc map_butlast)
  then have "map (previous_of l) ys = t # bl" using ne by (simp add: bl_def)
  then have "map (previous_of l) (n # tl ys) = t # bl" using cons by simp
  then have old_prev_tl: "map (previous_of l) (tl ys) = bl" by simp
  have "map (previous_of ?l') (tl ys) = map (previous_of l) (tl ys)"
    using n_notin_tl t_notin cons by (intro map_cong) (auto simp: pv dest: list.set_sel(2) [OF ne])
  with old_prev_tl have "map (previous_of ?l') (tl ys @ [n]) = bl @ [p]"
    using t_notin n_in by (auto simp: pv)
  then have prev': "map (previous_of ?l') (rotate1 ys) = ys"
    using ne by (simp add: snoc [symmetric] rotate1_hd_tl n)
  have "dom (nodes ?l') = set ys"
    using c t_notin by (auto simp: dom_unlink cyclic_def)
  moreover have "distinct ys" using dist by simp
  moreover have "length ys = count ?l'" using c cnt by (auto simp: misc_unlink cyclic_def)
  moreover have "\<forall>a \<in> set ys. a < fresh ?l'" using c by (simp add: misc_unlink cyclic_def)
  ultimately show ?thesis using next' prev' unfolding cyclic_def by blast
qed

lemma cyclic_unlink:
  assumes "cyclic l (as @ t # bs)" "as @ bs \<noteq> []"
  shows "cyclic (unlink t l) (as @ bs)"
proof -
  from assms(1) have "cyclic l ((t # bs) @ as)" by (rule cyclic_swap)
  then have "cyclic l (t # (bs @ as))" by simp
  moreover have "bs @ as \<noteq> []" using assms(2) by auto
  ultimately have "cyclic (unlink t l) (bs @ as)" by (rule cyclic_unlink_head)
  then show ?thesis by (rule cyclic_swap)
qed


subsection \<open>The ring as a list\<close>

lemma cyclic_next_hd: "cyclic l xs \<Longrightarrow> xs \<noteq> [] \<Longrightarrow> next_of l (hd xs) = hd (rotate1 xs)"
  using cyclic_next_of_head [of l "hd xs" "tl xs"] by (cases xs) simp_all

lemma cyclic_previous_hd: "cyclic l xs \<Longrightarrow> xs \<noteq> [] \<Longrightarrow> previous_of l (hd (rotate1 xs)) = hd xs"
proof -
  assume c: "cyclic l xs" and ne: "xs \<noteq> []"
  then have "map (previous_of l) (rotate1 xs) = xs" by (simp add: cyclic_def)
  then have "hd (map (previous_of l) (rotate1 xs)) = hd xs" by simp
  with ne show ?thesis by (simp add: hd_map)
qed

lemma trail_cyclic:
  "cyclic l xs \<Longrightarrow> xs \<noteq> [] \<Longrightarrow> k \<le> length xs \<Longrightarrow> trail l k (hd xs) = take k xs"
proof (induction k arbitrary: xs)
  case 0
  then show ?case by simp
next
  case (Suc k)
  from Suc.prems obtain x ys where xs: "xs = x # ys" by (cases xs) auto
  have c': "cyclic l (rotate1 xs)" by (rule cyclic_rotate1 [OF Suc.prems(1)])
  have "trail l k (hd (rotate1 xs)) = take k (rotate1 xs)"
    using Suc.IH [OF c'] Suc.prems by simp
  moreover have "take k (rotate1 xs) = take k ys" using Suc.prems(3) xs by simp
  ultimately show ?case using cyclic_next_hd [OF Suc.prems(1,2)] xs by simp
qed

lemma ring_order_ring: "ring l xs \<Longrightarrow> ring_order l = xs"
proof (cases xs)
  case Nil
  assume "ring l xs"
  with Nil show ?thesis by (simp add: ring_def ring_order_def)
next
  case (Cons x ys)
  assume r: "ring l xs"
  then have c: "cyclic l xs" and h: "head l = Some x" using Cons by (simp_all add: ring_def)
  from c have n: "count l = length xs" by (simp add: cyclic_def)
  from trail_cyclic [OF c, of "length xs"] Cons have "trail l (length xs) x = xs" by simp
  with h n show ?thesis by (simp add: ring_order_def)
qed

lemma map_filter_Some: "map f xs = map Some vs \<Longrightarrow> List.map_filter f xs = vs"
  by (induction xs arbitrary: vs) (auto simp: List.map_filter_simps)

lemma represents_ring: "represents l xs vs \<Longrightarrow> ring l xs"
  by (simp add: represents_def)

lemma represents_payloads: "represents l xs vs \<Longrightarrow> map (payload l) xs = map Some vs"
  by (simp add: represents_def)

lemma get_all_represents: "represents l xs vs \<Longrightarrow> get_all l = vs"
  using ring_order_ring [OF represents_ring, of l xs vs]
    map_filter_Some [OF represents_payloads, of l xs vs]
  by (simp add: get_all_def)

lemma represents_length: "represents l xs vs \<Longrightarrow> length xs = length vs"
  unfolding represents_def by (metis length_map)

lemma represents_payload:
  "represents l xs vs \<Longrightarrow> k < length xs \<Longrightarrow> payload l (xs ! k) = Some (vs ! k)"
proof -
  assume r: "represents l xs vs" and k: "k < length xs"
  then have "map (payload l) xs ! k = map Some vs ! k" by (simp add: represents_def)
  with k represents_length [OF r] show ?thesis by simp
qed

lemma find_payload:
  "map f xs = map Some vs \<Longrightarrow>
     List.find (\<lambda>a. case f a of Some x \<Rightarrow> P x | None \<Rightarrow> False) xs =
       (if length (takeWhile (\<lambda>x. \<not> P x) vs) < length vs
        then Some (xs ! length (takeWhile (\<lambda>x. \<not> P x) vs)) else None)"
proof (induction xs arbitrary: vs)
  case Nil
  then show ?case by simp
next
  case (Cons a xs)
  then obtain v ws where vs: "vs = v # ws" "f a = Some v" "map f xs = map Some ws" by (cases vs) auto
  with Cons.IH [OF vs(3)] show ?case by simp
qed

lemma find_node_represents:
  "represents l xs vs \<Longrightarrow>
     find_node P l =
       (if length (takeWhile (\<lambda>x. \<not> P x) vs) < length vs
        then Some (xs ! length (takeWhile (\<lambda>x. \<not> P x) vs)) else None)"
  using ring_order_ring [OF represents_ring, of l xs vs]
    find_payload [OF represents_payloads, of l xs vs P]
  by (simp add: find_node_def)


subsection \<open>The operations on the represented list\<close>

lemma head_update_simps [simp]:
  "next_of (l\<lparr>head := x\<rparr>) = next_of l"
  "previous_of (l\<lparr>head := x\<rparr>) = previous_of l"
  "payload (l\<lparr>head := x\<rparr>) = payload l"
  by (simp_all add: fun_eq_iff next_of_def previous_of_def payload_def)

lemma cyclic_head_update [simp]: "cyclic (l\<lparr>head := x\<rparr>) xs = cyclic l xs"
  by (simp add: cyclic_def)

lemma represents_cyclic: "represents l xs vs \<Longrightarrow> cyclic l xs"
  by (simp add: represents_def ring_def)

lemma represents_head:
  "represents l xs vs \<Longrightarrow> head l = (case xs of [] \<Rightarrow> None | x # _ \<Rightarrow> Some x)"
  by (simp add: represents_def ring_def)

lemma representsI:
  "cyclic l xs \<Longrightarrow> head l = (case xs of [] \<Rightarrow> None | x # _ \<Rightarrow> Some x) \<Longrightarrow>
     map (payload l) xs = map Some vs \<Longrightarrow> represents l xs vs"
  by (simp add: represents_def ring_def)

lemma represents_empty: "represents empty_list [] []"
  by (simp add: represents_def ring_def cyclic_def empty_list_def)

lemma represents_clear: "represents (clear l) [] []"
  by (simp add: represents_def ring_def cyclic_def clear_def)

lemma represents_insert_first:
  assumes "represents l [] []"
  shows "represents (insert_first v l) [fresh l] [v]"
proof -
  from assms have "dom (nodes l) = {}" by (simp add: represents_def ring_def cyclic_def)
  then have "nodes l = (\<lambda>_. None)" by (simp add: fun_eq_iff dom_def)
  then show ?thesis
    by (simp add: represents_def ring_def cyclic_def insert_first_def next_of_def previous_of_def
        payload_def)
qed

lemma payload_map_link:
  assumes "cyclic l xs" "t \<in> set xs" "set ys \<subseteq> set xs"
  shows "map (payload (link_before t v l)) ys = map (payload l) ys"
proof (rule map_cong [OF refl])
  fix a assume "a \<in> set ys"
  with assms(3) cyclic_fresh [OF assms(1)] have "a \<noteq> fresh l" by auto
  then show "payload (link_before t v l) a = payload l a"
    by (simp add: payload_link_cyclic [OF assms(1,2)])
qed

lemma represents_link_end:
  assumes r: "represents l (h # ys) vs"
  shows "represents (link_before h v l) ((h # ys) @ [fresh l]) (vs @ [v])"
proof (rule representsI)
  note c = represents_cyclic [OF r]
  show "cyclic (link_before h v l) ((h # ys) @ [fresh l])"
    using cyclic_link_head [OF c] by simp
  show "head (link_before h v l) = (case (h # ys) @ [fresh l] of [] \<Rightarrow> None | x # _ \<Rightarrow> Some x)"
    using represents_head [OF r] by (simp add: misc_link_before)
  have "map (payload (link_before h v l)) (h # ys) = map (payload l) (h # ys)"
    by (rule payload_map_link [OF c]) simp_all
  then have "map (payload (link_before h v l)) (h # ys) = map Some vs"
    using represents_payloads [OF r] by (simp only:)
  moreover have "payload (link_before h v l) (fresh l) = Some v"
    using payload_link_cyclic [OF c, of h v "fresh l"] by simp
  ultimately show "map (payload (link_before h v l)) ((h # ys) @ [fresh l]) = map Some (vs @ [v])"
    by (simp only: map_append list.map)
qed

lemma represents_link_front:
  assumes r: "represents l (h # ys) vs"
  shows "represents ((link_before h v l)\<lparr>head := Some (fresh l)\<rparr>) (fresh l # h # ys) (v # vs)"
proof (rule representsI)
  note c = represents_cyclic [OF r]
  show "cyclic ((link_before h v l)\<lparr>head := Some (fresh l)\<rparr>) (fresh l # h # ys)"
    using cyclic_link_before [of l "[]" h ys v] c by simp
  show "head ((link_before h v l)\<lparr>head := Some (fresh l)\<rparr>) =
      (case fresh l # h # ys of [] \<Rightarrow> None | x # _ \<Rightarrow> Some x)" by simp
  have "map (payload (link_before h v l)) (h # ys) = map (payload l) (h # ys)"
    by (rule payload_map_link [OF c]) simp_all
  then have "map (payload (link_before h v l)) (h # ys) = map Some vs"
    using represents_payloads [OF r] by (simp only:)
  moreover have "payload (link_before h v l) (fresh l) = Some v"
    using payload_link_cyclic [OF c, of h v "fresh l"] by simp
  ultimately show "map (payload ((link_before h v l)\<lparr>head := Some (fresh l)\<rparr>)) (fresh l # h # ys) =
      map Some (v # vs)"
    by (simp only: head_update_simps list.map)
qed

lemma represents_link_mid:
  assumes r: "represents l xs vs" and k: "0 < k" "k < length xs"
  shows "represents (link_before (xs ! k) v l) (take k xs @ fresh l # drop k xs)
           (take k vs @ v # drop k vs)"
proof (rule representsI)
  note c = represents_cyclic [OF r]
  let ?t = "xs ! k"
  have split: "xs = take k xs @ ?t # drop (Suc k) xs" using k by (simp add: id_take_nth_drop)
  have dk: "drop k xs = ?t # drop (Suc k) xs" using k by (simp add: Cons_nth_drop_Suc)
  have "cyclic l (take k xs @ ?t # drop (Suc k) xs)" using c split by simp
  from cyclic_link_before [OF this, of v]
  show "cyclic (link_before ?t v l) (take k xs @ fresh l # drop k xs)" by (simp add: dk)
  obtain j where j: "k = Suc j" using k by (cases k) auto
  obtain x ys where xs: "xs = x # ys" using k by (cases xs) auto
  have hd: "(case take k xs @ fresh l # drop k xs of [] \<Rightarrow> None | x # _ \<Rightarrow> Some x) =
      (case xs of [] \<Rightarrow> None | x # _ \<Rightarrow> Some x)"
    by (simp add: j xs)
  show "head (link_before ?t v l) =
      (case take k xs @ fresh l # drop k xs of [] \<Rightarrow> None | x # _ \<Rightarrow> Some x)"
    using represents_head [OF r] by (simp only: hd misc_link_before)
  have t_in: "?t \<in> set xs" using k by simp
  have "map (payload (link_before ?t v l)) (take k xs) = map (payload l) (take k xs)"
    by (rule payload_map_link [OF c t_in]) (rule set_take_subset)
  moreover have "map (payload (link_before ?t v l)) (drop k xs) = map (payload l) (drop k xs)"
    by (rule payload_map_link [OF c t_in]) (rule set_drop_subset)
  moreover have "map (payload l) (take k xs) = map Some (take k vs)"
    using represents_payloads [OF r] by (metis take_map)
  moreover have "map (payload l) (drop k xs) = map Some (drop k vs)"
    using represents_payloads [OF r] by (metis drop_map)
  ultimately show "map (payload (link_before ?t v l)) (take k xs @ fresh l # drop k xs) =
      map Some (take k vs @ v # drop k vs)"
    using payload_link_cyclic [OF c t_in, of v "fresh l"] by simp
qed

lemma represents_unlink:
  assumes r: "represents l xs vs" and k: "k < length xs"
  shows "represents (unlink (xs ! k) l) (take k xs @ drop (Suc k) xs) (take k vs @ drop (Suc k) vs)"
proof (rule representsI)
  note c = represents_cyclic [OF r]
  let ?t = "xs ! k" and ?xs' = "take k xs @ drop (Suc k) xs"
  have split: "xs = take k xs @ ?t # drop (Suc k) xs" using k by (simp add: id_take_nth_drop)
  have dist: "distinct xs" using c by (simp add: cyclic_def)
  have cnt: "count l = length xs" using c by (simp add: cyclic_def)
  have t_notin: "?t \<notin> set ?xs'"
    using dist split by (metis distinct_append distinct.simps(2) UnE disjoint_iff list.set_intros(1) set_append)
  show "cyclic (unlink ?t l) ?xs'"
  proof (cases "?xs' = []")
    case True
    then have one: "xs = [?t]" using split by (metis append_Nil append_is_Nil_conv)
    then have "length xs = 1" by (metis length_Cons list.size(3) One_nat_def)
    with cnt have "count l \<le> 1" by simp
    moreover have "dom (nodes l) = {?t}" using c one by (metis cyclic_def list.set(1) list.simps(15))
    ultimately show ?thesis using True by (auto simp: cyclic_def unlink_def)
  next
    case False
    have "cyclic l (take k xs @ ?t # drop (Suc k) xs)" using c split by simp
    then show ?thesis using False by (rule cyclic_unlink)
  qed
  show "head (unlink ?t l) = (case ?xs' of [] \<Rightarrow> None | x # _ \<Rightarrow> Some x)"
  proof (cases "?xs' = []")
    case True
    then have one: "xs = [?t]" using split by (metis append_Nil append_is_Nil_conv)
    then have "length xs = 1" by (metis length_Cons list.size(3) One_nat_def)
    with cnt have "count l \<le> 1" by simp
    then have "head (unlink ?t l) = None" by (simp add: unlink_def)
    then show ?thesis by (simp only: True list.case)
  next
    case False
    then have "1 < length xs" using k by (cases xs) auto
    with cnt have c1: "1 < count l" by simp
    obtain x ys where xs: "xs = x # ys" using k by (cases xs) auto
    with \<open>1 < length xs\<close> have ys: "ys \<noteq> []" by auto
    have hl: "head l = Some x" using represents_head [OF r] xs by simp
    show ?thesis
    proof (cases k)
      case 0
      then have t: "?t = x" using xs by simp
      have "next_of l x = hd ys" using cyclic_next_of_head [of l x ys] c xs ys by simp
      with 0 xs ys hl t c1 show ?thesis by (cases ys) (simp_all add: misc_unlink)
    next
      case (Suc j)
      have "?t \<noteq> x" using dist xs Suc k by (auto simp: nth_eq_iff_index_eq)
      with Suc xs hl c1 show ?thesis by (simp add: misc_unlink)
    qed
  qed
  have "map (payload (unlink ?t l)) ?xs' = map (payload l) ?xs'"
    using t_notin by (intro map_cong) (auto simp: payload_unlink)
  moreover have "map (payload l) (take k xs) = map Some (take k vs)"
    using represents_payloads [OF r] by (metis take_map)
  moreover have "map (payload l) (drop (Suc k) xs) = map Some (drop (Suc k) vs)"
    using represents_payloads [OF r] by (metis drop_map)
  ultimately show "map (payload (unlink ?t l)) ?xs' = map Some (take k vs @ drop (Suc k) vs)"
    by simp
qed


subsection \<open>The public operations on the represented list\<close>

lemma represents_Nil_iff: "represents l xs vs \<Longrightarrow> (head l = None) = (xs = [])"
  by (cases xs) (simp_all add: represents_head)

lemma represents_Nil: "represents l [] vs \<Longrightarrow> vs = []"
  using represents_length [of l "[]" vs] by simp

lemma represents_insert_at_beginning:
  assumes "represents l xs vs"
  shows "represents (insert_at_beginning v l) (fresh l # xs) (v # vs)"
proof (cases xs)
  case Nil
  with assms represents_Nil [of l vs] have "represents l [] []" "head l = None" "vs = []"
    by (simp_all add: represents_head)
  with Nil represents_insert_first [of l v] show ?thesis by (simp add: insert_at_beginning_def)
next
  case (Cons h ys)
  with assms have "head l = Some h" by (simp add: represents_head)
  with Cons represents_link_front [of l h ys vs v] assms show ?thesis
    by (simp add: insert_at_beginning_def)
qed

lemma represents_insert_at_end:
  assumes "represents l xs vs"
  shows "represents (insert_at_end v l) (xs @ [fresh l]) (vs @ [v])"
proof (cases xs)
  case Nil
  with assms represents_Nil [of l vs] have "represents l [] []" "head l = None" "vs = []"
    by (simp_all add: represents_head)
  with Nil represents_insert_first [of l v] show ?thesis by (simp add: insert_at_end_def)
next
  case (Cons h ys)
  with assms have "head l = Some h" by (simp add: represents_head)
  with Cons represents_link_end [of l h ys vs v] assms show ?thesis
    by (simp add: insert_at_end_def)
qed

lemma represents_insert_sorted:
  assumes r: "represents l xs vs"
  shows "\<exists>xs'. represents (insert_sorted key_fn v l) xs'
           (takeWhile (\<lambda>x. \<not> key_fn v < key_fn x) vs @ v # dropWhile (\<lambda>x. \<not> key_fn v < key_fn x) vs)"
proof (cases xs)
  case Nil
  with r represents_Nil [of l vs] have "represents l [] []" "head l = None" "vs = []"
    by (simp_all add: represents_head)
  with represents_insert_first [of l v] show ?thesis by (auto simp: insert_sorted_def)
next
  case (Cons h ys)
  let ?Q = "\<lambda>x. \<not> key_fn v < key_fn x"
  let ?k = "length (takeWhile ?Q vs)"
  have hd: "head l = Some h" using r Cons by (simp add: represents_head)
  have len: "length xs = length vs" by (rule represents_length [OF r])
  have dist: "distinct xs" using represents_cyclic [OF r] by (simp add: cyclic_def)
  have fn: "find_node (\<lambda>x. key_fn v < key_fn x) l =
      (if ?k < length vs then Some (xs ! ?k) else None)"
    using find_node_represents [OF r, of "\<lambda>x. key_fn v < key_fn x"] by simp
  have tk: "takeWhile ?Q vs = take ?k vs" by (rule takeWhile_eq_take)
  have dk: "dropWhile ?Q vs = drop ?k vs" by (rule dropWhile_eq_drop)
  show ?thesis
  proof (cases "?k < length vs")
    case False
    then have all: "takeWhile ?Q vs = vs" "dropWhile ?Q vs = []"
      using tk dk length_takeWhile_le [of ?Q vs] by simp_all
    from False fn hd have "insert_sorted key_fn v l = link_before h v l"
      by (simp add: insert_sorted_def)
    moreover have "represents (link_before h v l) ((h # ys) @ [fresh l])
        (takeWhile ?Q vs @ v # dropWhile ?Q vs)"
      using represents_link_end [of l h ys vs v] r Cons by (simp only: all)
    ultimately show ?thesis by metis
  next
    case True
    show ?thesis
    proof (cases "?k = 0")
      case k0: True
      then have "xs ! ?k = h" using Cons by simp
      with True fn hd have "insert_sorted key_fn v l = (link_before h v l)\<lparr>head := Some (fresh l)\<rparr>"
        by (simp add: insert_sorted_def)
      moreover have "takeWhile ?Q vs = []" "dropWhile ?Q vs = vs" using k0 tk dk by simp_all
      ultimately show ?thesis using represents_link_front [of l h ys vs v] r Cons by auto
    next
      case False
      then have kpos: "0 < ?k" by simp
      have klt: "?k < length xs" using True len by simp
      have "0 < length xs" using Cons by simp
      with dist klt kpos have "xs ! ?k \<noteq> xs ! 0"
        by (metis nth_eq_iff_index_eq less_numeral_extra(3))
      then have "xs ! ?k \<noteq> h" using Cons by simp
      with True fn hd have "insert_sorted key_fn v l = link_before (xs ! ?k) v l"
        by (simp add: insert_sorted_def)
      with represents_link_mid [OF r kpos klt, of v] tk dk show ?thesis by auto
    qed
  qed
qed

lemma represents_delete:
  assumes r: "represents l xs vs"
  shows "\<exists>xs'. represents (fst (delete P l)) xs'
           (takeWhile (\<lambda>x. \<not> P x) vs @ drop 1 (dropWhile (\<lambda>x. \<not> P x) vs))"
proof -
  let ?k = "length (takeWhile (\<lambda>x. \<not> P x) vs)"
  have fn: "find_node P l = (if ?k < length vs then Some (xs ! ?k) else None)"
    by (rule find_node_represents [OF r])
  have tk: "takeWhile (\<lambda>x. \<not> P x) vs = take ?k vs" by (rule takeWhile_eq_take)
  have dk: "dropWhile (\<lambda>x. \<not> P x) vs = drop ?k vs" by (rule dropWhile_eq_drop)
  show ?thesis
  proof (cases "?k < length vs")
    case True
    then have "?k < length xs" using represents_length [OF r] by simp
    from represents_unlink [OF r this] True fn tk dk show ?thesis
      by (auto simp: delete_def)
  next
    case False
    then have "takeWhile (\<lambda>x. \<not> P x) vs = vs" "dropWhile (\<lambda>x. \<not> P x) vs = []"
      using tk dk length_takeWhile_le [of "\<lambda>x. \<not> P x" vs] by simp_all
    then have "represents l xs (takeWhile (\<lambda>x. \<not> P x) vs @ drop 1 (dropWhile (\<lambda>x. \<not> P x) vs))"
      using r by (simp only: drop_Nil append_Nil2)
    moreover have "fst (delete P l) = l" using False fn by (simp add: delete_def)
    ultimately show ?thesis by metis
  qed
qed

lemma next_iter:
  "cyclic l xs \<Longrightarrow> xs \<noteq> [] \<Longrightarrow> (next_of l ^^ k) (hd xs) = hd (rotate k xs)"
proof (induction k)
  case 0
  then show ?case by simp
next
  case (Suc k)
  have "cyclic l (rotate k xs)" by (rule cyclic_rotate [OF Suc.prems(1)])
  moreover have "rotate k xs \<noteq> []" using Suc.prems(2) by simp
  ultimately have "next_of l (hd (rotate k xs)) = hd (rotate1 (rotate k xs))"
    by (rule cyclic_next_hd)
  with Suc show ?case by simp
qed

lemma previous_iter:
  "cyclic l xs \<Longrightarrow> xs \<noteq> [] \<Longrightarrow> (previous_of l ^^ k) (hd (rotate k xs)) = hd xs"
proof (induction k arbitrary: xs)
  case 0
  then show ?case by simp
next
  case (Suc k)
  have c1: "cyclic l (rotate1 xs)" by (rule cyclic_rotate1 [OF Suc.prems(1)])
  have ne1: "rotate1 xs \<noteq> []" using Suc.prems(2) by simp
  have "(previous_of l ^^ Suc k) (hd (rotate (Suc k) xs)) =
        previous_of l ((previous_of l ^^ k) (hd (rotate k (rotate1 xs))))"
    by (simp add: rotate1_rotate_swap)
  also have "\<dots> = previous_of l (hd (rotate1 xs))" using Suc.IH [OF c1 ne1] by simp
  also have "\<dots> = hd xs" by (rule cyclic_previous_hd [OF Suc.prems])
  finally show ?case .
qed

lemma walk_to_cyclic:
  assumes c: "cyclic l zs" and ne: "zs \<noteq> []" and pos: "pos \<le> length zs"
  shows "walk_to pos l (hd zs) = zs ! (pos mod length zs)"
proof (cases "2 * pos \<le> count l")
  case True
  then show ?thesis using next_iter [OF c ne, of pos] ne by (simp add: walk_to_def hd_rotate_conv_nth)
next
  case False
  have cnt: "count l = length zs" using c by (simp add: cyclic_def)
  have c': "cyclic l (rotate pos zs)" by (rule cyclic_rotate [OF c])
  have ne': "rotate pos zs \<noteq> []" using ne by simp
  have "rotate (length zs - pos) (rotate pos zs) = rotate (length zs) zs"
    using pos by (simp add: rotate_rotate)
  also have "\<dots> = zs" by simp
  finally have "(previous_of l ^^ (length zs - pos)) (hd zs) = hd (rotate pos zs)"
    using previous_iter [OF c' ne', of "length zs - pos"] by simp
  with False cnt ne show ?thesis by (simp add: walk_to_def hd_rotate_conv_nth)
qed

lemma represents_insert_at:
  assumes r: "represents l zs ws" and pos: "pos \<le> length zs"
  shows "represents (insert_at pos v l) (take pos zs @ fresh l # drop pos zs)
           (take pos ws @ v # drop pos ws)"
proof (cases zs)
  case Nil
  with r represents_Nil [of l ws] have "represents l [] []" "head l = None" "ws = []"
    by (simp_all add: represents_head)
  with Nil represents_insert_first [of l v] show ?thesis by (simp add: insert_at_def)
next
  case (Cons h ys)
  then have ne: "zs \<noteq> []" by simp
  have hd: "head l = Some h" using r Cons by (simp add: represents_head)
  have len: "length zs = length ws" by (rule represents_length [OF r])
  have w: "walk_to pos l h = zs ! (pos mod length zs)"
    using walk_to_cyclic [OF represents_cyclic [OF r] ne pos] Cons by simp
  consider "pos = 0" | "0 < pos" "pos < length zs" | "pos = length zs" "0 < pos"
    using pos ne by (cases "pos = 0"; cases "pos = length zs") auto
  then show ?thesis
  proof cases
    case 1
    with w Cons have "walk_to pos l h = h" by simp
    with 1 hd have "insert_at pos v l = (link_before h v l)\<lparr>head := Some (fresh l)\<rparr>"
      by (simp add: insert_at_def)
    with represents_link_front [of l h ys ws v] r Cons 1 show ?thesis by simp
  next
    case 2
    with w have "walk_to pos l h = zs ! pos" by simp
    with 2 hd have "insert_at pos v l = link_before (zs ! pos) v l" by (simp add: insert_at_def)
    with represents_link_mid [OF r 2, of v] show ?thesis by simp
  next
    case 3
    with w Cons have "walk_to pos l h = h" by simp
    with 3 hd have "insert_at pos v l = link_before h v l" by (simp add: insert_at_def)
    with represents_link_end [of l h ys ws v] r Cons 3 len show ?thesis by simp
  qed
qed

lemma clamp_position_le: "0 < n \<Longrightarrow> clamp_position n p \<le> n - 1"
  by (auto simp: clamp_position_def)

lemma represents_reorder:
  assumes r: "represents l xs vs"
    and k: "length (takeWhile (\<lambda>x. ident x \<noteq> i) vs) < length vs"
  shows "\<exists>l' xs'. reorder ident i new_position l = Inr l' \<and>
           represents l' xs'
             (move (length (takeWhile (\<lambda>x. ident x \<noteq> i) vs))
                (clamp_position (length vs) new_position) vs)"
proof -
  let ?k = "length (takeWhile (\<lambda>x. ident x \<noteq> i) vs)"
  let ?j = "clamp_position (length vs) new_position"
  have len: "length xs = length vs" by (rule represents_length [OF r])
  have kx: "?k < length xs" using k len by simp
  then have "xs \<noteq> []" by auto
  then have hd: "head l \<noteq> None" using represents_Nil_iff [OF r] by simp
  have fn: "find_node (\<lambda>x. ident x = i) l = Some (xs ! ?k)"
    using find_node_represents [OF r, of "\<lambda>x. ident x = i"] k by simp
  have pl: "payload l (xs ! ?k) = Some (vs ! ?k)" by (rule represents_payload [OF r kx])
  have cnt: "count l = length vs" using represents_cyclic [OF r] len by (simp add: cyclic_def)
  have eq: "reorder ident i new_position l =
      Inr (insert_at ?j (vs ! ?k) (unlink (xs ! ?k) l))"
    using hd fn pl cnt by (simp add: reorder_def)
  note r1 = represents_unlink [OF r kx]
  have "?j \<le> length vs - 1" using k by (intro clamp_position_le) auto
  also have "\<dots> = length (take ?k xs @ drop (Suc ?k) xs)" using kx len by simp
  finally have j: "?j \<le> length (take ?k xs @ drop (Suc ?k) xs)" .
  from represents_insert_at [OF r1 j, of "vs ! ?k"] eq show ?thesis
    unfolding move_def Let_def by blast
qed

lemma reorder_absent:
  assumes r: "represents l xs vs"
    and k: "\<not> length (takeWhile (\<lambda>x. ident x \<noteq> i) vs) < length vs"
  shows "reorder ident i new_position l = Inl (if vs = [] then EmptyCollection else NotFound)"
proof -
  have "find_node (\<lambda>x. ident x = i) l = None"
    using find_node_represents [OF r, of "\<lambda>x. ident x = i"] k by simp
  moreover have "(head l = None) = (vs = [])"
    using represents_Nil_iff [OF r] represents_length [OF r] by auto
  ultimately show ?thesis by (simp add: reorder_def)
qed

section \<open>Runs of operations\<close>

lemma represents_apply_op:
  assumes r: "represents l xs vs"
  shows "\<exists>xs'. represents (apply_op key_fn ident op l) xs' (list_effect key_fn ident op vs)"
proof (cases op)
  case (InsertAtBeginning v)
  with represents_insert_at_beginning [OF r, of v] show ?thesis by auto
next
  case (InsertAtEnd v)
  with represents_insert_at_end [OF r, of v] show ?thesis by auto
next
  case (InsertSorted v)
  with represents_insert_sorted [OF r, of key_fn v] show ?thesis by simp
next
  case (Delete P)
  with represents_delete [OF r, of P] show ?thesis by simp
next
  case (Reorder i pos)
  show ?thesis
  proof (cases "length (takeWhile (\<lambda>x. ident x \<noteq> i) vs) < length vs")
    case True
    from represents_reorder [OF r True, of pos] obtain l' xs' where
      "reorder ident i pos l = Inr l'"
      "represents l' xs' (move (length (takeWhile (\<lambda>x. ident x \<noteq> i) vs))
          (clamp_position (length vs) pos) vs)" by blast
    with Reorder True show ?thesis by auto
  next
    case False
    with reorder_absent [OF r False, of pos] Reorder r show ?thesis by auto
  qed
next
  case Clear
  with represents_clear [of l] show ?thesis by auto
qed

lemma represents_fold:
  "represents l xs vs \<Longrightarrow>
     \<exists>xs'. represents (fold (apply_op key_fn ident) ops l) xs' (fold (list_effect key_fn ident) ops vs)"
proof (induction ops arbitrary: l xs vs)
  case Nil
  then show ?case by auto
next
  case (Cons op ops)
  from represents_apply_op [OF Cons.prems, of key_fn ident op] obtain xs1 where
    "represents (apply_op key_fn ident op l) xs1 (list_effect key_fn ident op vs)" by blast
  from Cons.IH [OF this] show ?case by simp
qed

lemma represents_run_ops:
  "\<exists>xs. represents (run_ops key_fn ident ops) xs (fold (list_effect key_fn ident) ops [])"
  unfolding run_ops_def by (rule represents_fold [OF represents_empty])

lemma get_all_run_ops:
  "get_all (run_ops key_fn ident ops) = fold (list_effect key_fn ident) ops []"
  using represents_run_ops [of key_fn ident ops] get_all_represents by blast

text \<open>
  Two consequences for the adapters of the spec: laps inserted at the beginning are
  enumerated newest first, and alarms inserted in key order are enumerated in
  non-decreasing key order.
\<close>

lemma fold_insert_at_beginning:
  "fold (list_effect key_fn ident) (map InsertAtBeginning vs) ws = rev vs @ ws"
  by (induction vs arbitrary: ws) simp_all

lemma get_all_insert_at_beginning:
  "get_all (run_ops key_fn ident (map InsertAtBeginning vs)) = rev vs"
  by (simp add: get_all_run_ops fold_insert_at_beginning)

lemma set_insert_sorted:
  "set (list_effect key_fn ident (InsertSorted v) vs) = insert v (set vs)"
proof -
  have "set (takeWhile (\<lambda>x. \<not> key_fn v < key_fn x) vs) \<union>
        set (dropWhile (\<lambda>x. \<not> key_fn v < key_fn x) vs) = set vs"
    by (metis set_append takeWhile_dropWhile_id)
  then show ?thesis by auto
qed

lemma sorted_insert_sorted:
  "sorted (map key_fn vs) \<Longrightarrow> sorted (map key_fn (list_effect key_fn ident (InsertSorted v) vs))"
proof (induction vs)
  case Nil
  then show ?case by simp
next
  case (Cons x xs)
  show ?case
  proof (cases "key_fn v < key_fn x")
    case True
    with Cons.prems show ?thesis by auto
  next
    case False
    let ?r = "list_effect key_fn ident (InsertSorted v) xs"
    have IH: "sorted (map key_fn ?r)" using Cons by simp
    have "set ?r = insert v (set xs)" by (rule set_insert_sorted)
    then have le: "\<forall>y \<in> set ?r. key_fn x \<le> key_fn y"
      using Cons.prems False by auto
    have "list_effect key_fn ident (InsertSorted v) (x # xs) = x # ?r" using False by simp
    then have "map key_fn (list_effect key_fn ident (InsertSorted v) (x # xs)) =
        key_fn x # map key_fn ?r" by (simp only: list.map)
    moreover have "sorted (key_fn x # map key_fn ?r)" using IH le by (simp del: list_effect.simps)
    ultimately show ?thesis by (simp only:)
  qed
qed

lemma sorted_fold_insert_sorted:
  "sorted (map key_fn ws) \<Longrightarrow>
     sorted (map key_fn (fold (list_effect key_fn ident) (map InsertSorted vs) ws))"
proof (induction vs arbitrary: ws)
  case Nil
  then show ?case by simp
next
  case (Cons v vs)
  from sorted_insert_sorted [OF Cons.prems, of ident v]
  show ?case using Cons.IH by simp
qed

lemma sorted_get_all_insert_sorted:
  "sorted (map key_fn (get_all (run_ops key_fn ident (map InsertSorted vs))))"
  by (simp add: get_all_run_ops sorted_fold_insert_sorted)

subsection \<open>Closure and symmetry\<close>

lemma cyclic_as_head:
  assumes "cyclic l xs" "a \<in> set xs"
  shows "\<exists>ys. cyclic l ys \<and> ys \<noteq> [] \<and> hd ys = a \<and> length ys = length xs"
proof -
  from assms(2) obtain i where i: "i < length xs" "xs ! i = a" by (auto simp: in_set_conv_nth)
  then have ne: "xs \<noteq> []" by auto
  have "hd (rotate i xs) = a" using i ne by (simp add: hd_rotate_conv_nth)
  with cyclic_rotate [OF assms(1), of i] ne show ?thesis by (intro exI [of _ "rotate i xs"]) simp
qed

lemma cyclic_closure:
  assumes "cyclic l xs" "a \<in> set xs"
  shows "(next_of l ^^ count l) a = a"
proof -
  from cyclic_as_head [OF assms] obtain ys where
    ys: "cyclic l ys" "ys \<noteq> []" "hd ys = a" "length ys = length xs" by blast
  have "count l = length ys" using ys(1) by (simp add: cyclic_def)
  with next_iter [OF ys(1,2), of "length ys"] ys(3) show ?thesis by simp
qed

lemma cyclic_previous_next:
  assumes "cyclic l xs" "a \<in> set xs"
  shows "previous_of l (next_of l a) = a"
proof -
  from cyclic_as_head [OF assms] obtain ys where
    ys: "cyclic l ys" "ys \<noteq> []" "hd ys = a" by blast
  from cyclic_next_hd [OF ys(1,2)] cyclic_previous_hd [OF ys(1,2)] ys(3) show ?thesis by simp
qed

lemma cyclic_next_previous:
  assumes "cyclic l xs" "a \<in> set xs"
  shows "next_of l (previous_of l a) = a"
proof -
  from cyclic_as_head [OF assms] obtain ys where
    ys: "cyclic l ys" "ys \<noteq> []" "hd ys = a" by blast
  define zs where "zs = rotate (length ys - 1) ys"
  have c: "cyclic l zs" unfolding zs_def by (rule cyclic_rotate [OF ys(1)])
  have ne: "zs \<noteq> []" using ys(2) by (simp add: zs_def)
  have "rotate1 zs = rotate (Suc (length ys - 1)) ys" by (simp add: zs_def)
  also have "Suc (length ys - 1) = length ys" using ys(2) by (cases ys) auto
  finally have r: "rotate1 zs = ys" by simp
  from cyclic_previous_hd [OF c ne] r ys(3) have "previous_of l a = hd zs" by simp
  with cyclic_next_hd [OF c ne] r ys(3) show ?thesis by simp
qed

lemma closed_ring_represents:
  assumes r: "represents l xs vs"
  shows "closed_ring l"
proof -
  note c = represents_cyclic [OF r]
  have dom: "dom (nodes l) = set xs" and cnt: "count l = length xs"
    using c by (simp_all add: cyclic_def)
  have 1: "\<forall>a \<in> dom (nodes l).
         (next_of l ^^ count l) a = a \<and>
         previous_of l (next_of l a) = a \<and> next_of l (previous_of l a) = a"
    using cyclic_closure [OF c] cyclic_previous_next [OF c] cyclic_next_previous [OF c] dom
    by blast
  have 2: "count l = 1 \<longrightarrow> (\<exists>h. head l = Some h \<and> next_of l h = h \<and> previous_of l h = h)"
  proof
    assume "count l = 1"
    with cnt obtain h where xs: "xs = [h]" by (cases xs) auto
    with c have "next_of l h = h" "previous_of l h = h" by (simp_all add: cyclic_def)
    moreover have "head l = Some h" using represents_head [OF r] xs by simp
    ultimately show "\<exists>h. head l = Some h \<and> next_of l h = h \<and> previous_of l h = h" by blast
  qed
  have 3: "(head l = None) = (count l = 0)"
    using represents_Nil_iff [OF r] cnt by simp
  from 1 2 3 show ?thesis unfolding closed_ring_def by blast
qed

text \<open>
  C5. After every sequence of public operations on the list (insertions at the
  beginning, at the end and in key order, deletions, reorderings, clearing), the ring is
  closed: from every node, following \<open>next\<close> exactly \<open>count\<close> times returns to that
  node; for every node the previous of its next and the next of its previous are the node
  itself; and in a list of one element the head's next and previous are the head.
\<close>

theorem ring_closed_after_every_operation:
  "closed_ring (run_ops key_fn ident ops)"
  using represents_run_ops [of key_fn ident ops] closed_ring_represents by blast


theorem ring_closed_after_every_operation_witness:
  "0 \<in> dom (nodes three_added) \<and> count three_added = 3 \<and>
   (next_of three_added ^^ 3) 0 = 0 \<and>
   previous_of three_added (next_of three_added 0) = 0 \<and>
   next_of three_added (previous_of three_added 0) = 0 \<and>
   count (run_ops fav_order fav_id [InsertAtEnd tokyo]) = 1 \<and>
   (\<exists>h. head (run_ops fav_order fav_id [InsertAtEnd tokyo]) = Some h \<and>
        next_of (run_ops fav_order fav_id [InsertAtEnd tokyo]) h = h \<and>
        previous_of (run_ops fav_order fav_id [InsertAtEnd tokyo]) h = h)"
proof -
  have "nodes three_added 0 \<noteq> None" by code_simp
  then have d: "0 \<in> dom (nodes three_added)" by (simp add: dom_def)
  have n: "count three_added = 3" by code_simp
  have one: "count (run_ops fav_order fav_id [InsertAtEnd tokyo]) = 1" by code_simp
  from ring_closed_after_every_operation
         [of fav_order fav_id "[InsertAtEnd tokyo, InsertAtEnd paris, InsertAtEnd london]"]
       ring_closed_after_every_operation [of fav_order fav_id "[InsertAtEnd tokyo]"]
       d n one
  show ?thesis unfolding closed_ring_def three_added_def [symmetric] by auto
qed

subsection \<open>Navigation\<close>

lemma next_of_nth:
  assumes "cyclic l xs" "k < length xs"
  shows "next_of l (xs ! k) = xs ! (Suc k mod length xs)"
proof -
  from assms(1) have "map (next_of l) xs ! k = rotate1 xs ! k" by (simp add: cyclic_def)
  with assms(2) show ?thesis by (simp add: nth_rotate1)
qed

lemma previous_of_nth:
  assumes "cyclic l xs" "k < length xs"
  shows "previous_of l (xs ! k) = xs ! ((k + length xs - 1) mod length xs)"
proof -
  let ?n = "length xs" and ?j = "(k + length xs - 1) mod length xs"
  have "0 < ?n" using assms(2) by arith
  then have j: "?j < ?n" by (rule mod_less_divisor)
  have "Suc (k + ?n - 1) = k + ?n" using assms(2) by simp
  then have "Suc ?j mod ?n = k" using assms(2) by (simp add: mod_Suc_eq)
  with j have "rotate1 xs ! ?j = xs ! k" by (simp add: nth_rotate1)
  moreover from assms(1) have "map (previous_of l) (rotate1 xs) ! ?j = xs ! ?j"
    by (simp add: cyclic_def)
  ultimately show ?thesis using j by simp
qed

lemma get_next_represents:
  assumes r: "represents l xs vs"
    and k: "length (takeWhile (\<lambda>x. \<not> P x) vs) < length vs"
  shows "get_next P l = Inr (vs ! (Suc (length (takeWhile (\<lambda>x. \<not> P x) vs)) mod length vs))"
proof -
  let ?k = "length (takeWhile (\<lambda>x. \<not> P x) vs)"
  have len: "length xs = length vs" by (rule represents_length [OF r])
  then have ne: "xs \<noteq> []" using k by auto
  have "find_node P l = Some (xs ! ?k)" using find_node_represents [OF r, of P] k by simp
  moreover have "head l \<noteq> None" using represents_Nil_iff [OF r] ne by simp
  moreover have "next_of l (xs ! ?k) = xs ! (Suc ?k mod length vs)"
    using next_of_nth [OF represents_cyclic [OF r], of ?k] k len by simp
  moreover have "Suc ?k mod length vs < length xs"
    using k len by (metis mod_less_divisor less_nat_zero_code neq0_conv)
  then have "payload l (xs ! (Suc ?k mod length vs)) = Some (vs ! (Suc ?k mod length vs))"
    by (rule represents_payload [OF r])
  ultimately show ?thesis by (simp add: get_next_def neighbour_def)
qed

lemma get_previous_represents:
  assumes r: "represents l xs vs"
    and k: "length (takeWhile (\<lambda>x. \<not> P x) vs) < length vs"
  shows "get_previous P l =
           Inr (vs ! ((length (takeWhile (\<lambda>x. \<not> P x) vs) + length vs - 1) mod length vs))"
proof -
  let ?k = "length (takeWhile (\<lambda>x. \<not> P x) vs)"
  let ?j = "(?k + length vs - 1) mod length vs"
  have len: "length xs = length vs" by (rule represents_length [OF r])
  then have ne: "xs \<noteq> []" using k by auto
  have "find_node P l = Some (xs ! ?k)" using find_node_represents [OF r, of P] k by simp
  moreover have "head l \<noteq> None" using represents_Nil_iff [OF r] ne by simp
  moreover have "previous_of l (xs ! ?k) = xs ! ?j"
    using previous_of_nth [OF represents_cyclic [OF r], of ?k] k len by simp
  moreover have "?j < length xs"
    using k len by (metis mod_less_divisor less_nat_zero_code neq0_conv)
  then have "payload l (xs ! ?j) = Some (vs ! ?j)"
    by (rule represents_payload [OF r])
  ultimately show ?thesis by (simp add: get_previous_def neighbour_def)
qed

lemma navigation_empty:
  assumes r: "represents l xs []"
  shows "get_next P l = Inl EmptyCollection" "get_previous P l = Inl EmptyCollection"
proof -
  have "xs = []" using represents_length [OF r] by simp
  then have "head l = None" using represents_Nil_iff [OF r] by simp
  then show "get_next P l = Inl EmptyCollection" "get_previous P l = Inl EmptyCollection"
    by (simp_all add: get_next_def get_previous_def neighbour_def)
qed

lemma get_next_last:
  assumes r: "represents l xs vs" and ne: "vs \<noteq> []"
    and p: "P (last vs)" and np: "\<forall>x \<in> set (butlast vs). \<not> P x"
  shows "get_next P l = Inr (hd vs)"
proof -
  have "takeWhile (\<lambda>x. \<not> P x) (butlast vs @ [last vs]) = butlast vs"
    using p np by (simp add: takeWhile_append2)
  then have k: "length (takeWhile (\<lambda>x. \<not> P x) vs) = length vs - 1" using ne by simp
  then have "length (takeWhile (\<lambda>x. \<not> P x) vs) < length vs" using ne by simp
  from get_next_represents [OF r this] k ne show ?thesis by (simp add: hd_conv_nth)
qed

lemma get_previous_first:
  assumes r: "represents l xs vs" and ne: "vs \<noteq> []" and p: "P (hd vs)"
  shows "get_previous P l = Inr (last vs)"
proof -
  have k: "length (takeWhile (\<lambda>x. \<not> P x) vs) = 0" using p ne by (cases vs) auto
  then have "length (takeWhile (\<lambda>x. \<not> P x) vs) < length vs" using ne by simp
  from get_previous_represents [OF r this] k ne show ?thesis by (simp add: last_conv_nth)
qed

text \<open>
  C6. After every sequence of public operations: on the empty list \<^verbatim>\<open>get_next\<close> and
  \<^verbatim>\<open>get_previous\<close> report the empty collection; \<^verbatim>\<open>get_next\<close> with a reference that
  matches the last element of \<^verbatim>\<open>get_all()\<close>, and no element before it, returns the first
  element; \<^verbatim>\<open>get_previous\<close> with a reference that matches the first element returns the
  last; and with exactly one element both return that element.
\<close>

theorem navigation_wraps:
  "(get_all (run_ops key_fn ident ops) = [] \<longrightarrow>
      get_next P (run_ops key_fn ident ops) = Inl EmptyCollection \<and>
      get_previous P (run_ops key_fn ident ops) = Inl EmptyCollection) \<and>
   (get_all (run_ops key_fn ident ops) \<noteq> [] \<and> P (last (get_all (run_ops key_fn ident ops))) \<and>
    (\<forall>x \<in> set (butlast (get_all (run_ops key_fn ident ops))). \<not> P x) \<longrightarrow>
      get_next P (run_ops key_fn ident ops) = Inr (hd (get_all (run_ops key_fn ident ops)))) \<and>
   (get_all (run_ops key_fn ident ops) \<noteq> [] \<and> P (hd (get_all (run_ops key_fn ident ops))) \<longrightarrow>
      get_previous P (run_ops key_fn ident ops) =
        Inr (last (get_all (run_ops key_fn ident ops)))) \<and>
   (\<forall>x. get_all (run_ops key_fn ident ops) = [x] \<and> P x \<longrightarrow>
      get_next P (run_ops key_fn ident ops) = Inr x \<and>
      get_previous P (run_ops key_fn ident ops) = Inr x)"
proof -
  let ?l = "run_ops key_fn ident ops"
  obtain xs where r: "represents ?l xs (fold (list_effect key_fn ident) ops [])"
    using represents_run_ops by blast
  then have g: "get_all ?l = fold (list_effect key_fn ident) ops []" by (rule get_all_represents)
  from r g have r': "represents ?l xs (get_all ?l)" by simp
  have 1: "get_all ?l = [] \<longrightarrow>
      get_next P ?l = Inl EmptyCollection \<and> get_previous P ?l = Inl EmptyCollection"
    using navigation_empty [of ?l xs P] r' by auto
  have 2: "get_all ?l \<noteq> [] \<and> P (last (get_all ?l)) \<and> (\<forall>x \<in> set (butlast (get_all ?l)). \<not> P x) \<longrightarrow>
      get_next P ?l = Inr (hd (get_all ?l))"
    using get_next_last [OF r'] by blast
  have 3: "get_all ?l \<noteq> [] \<and> P (hd (get_all ?l)) \<longrightarrow> get_previous P ?l = Inr (last (get_all ?l))"
    using get_previous_first [OF r'] by blast
  have 4: "\<forall>x. get_all ?l = [x] \<and> P x \<longrightarrow> get_next P ?l = Inr x \<and> get_previous P ?l = Inr x"
  proof (intro allI impI)
    fix x assume a: "get_all ?l = [x] \<and> P x"
    then have "get_all ?l \<noteq> []" "P (last (get_all ?l))" "P (hd (get_all ?l))"
      "\<forall>y \<in> set (butlast (get_all ?l)). \<not> P y" by simp_all
    with 2 3 a show "get_next P ?l = Inr x \<and> get_previous P ?l = Inr x" by simp
  qed
  from 1 2 3 4 show ?thesis by blast
qed

text \<open>
  C7. After every sequence of public operations, \<^verbatim>\<open>reorder(id, new_position)\<close> for an id
  that is present succeeds for every integer position: the element is taken out and put
  back at the position clamped to the valid indices, 0 for a negative position and the
  last index for a position of \<open>count\<close> or more, the other elements keeping their order;
  the result is again a closed ring.
\<close>

theorem reorder_clamps:
  "length (takeWhile (\<lambda>x. ident x \<noteq> i) (get_all (run_ops key_fn ident ops)))
     < length (get_all (run_ops key_fn ident ops)) \<longrightarrow>
   (\<exists>l'. reorder ident i new_position (run_ops key_fn ident ops) = Inr l' \<and> closed_ring l' \<and>
      get_all l' =
        move (length (takeWhile (\<lambda>x. ident x \<noteq> i) (get_all (run_ops key_fn ident ops))))
          (clamp_position (length (get_all (run_ops key_fn ident ops))) new_position)
          (get_all (run_ops key_fn ident ops))) \<and>
   (new_position < 0 \<longrightarrow> clamp_position (length (get_all (run_ops key_fn ident ops))) new_position = 0) \<and>
   (int (length (get_all (run_ops key_fn ident ops))) \<le> new_position \<longrightarrow>
      clamp_position (length (get_all (run_ops key_fn ident ops))) new_position =
        length (get_all (run_ops key_fn ident ops)) - 1)"
proof (intro impI conjI)
  let ?l = "run_ops key_fn ident ops"
  assume k: "length (takeWhile (\<lambda>x. ident x \<noteq> i) (get_all ?l)) < length (get_all ?l)"
  obtain xs where r: "represents ?l xs (fold (list_effect key_fn ident) ops [])"
    using represents_run_ops by blast
  then have g: "get_all ?l = fold (list_effect key_fn ident) ops []" by (rule get_all_represents)
  from r g have r': "represents ?l xs (get_all ?l)" by simp
  from represents_reorder [OF r' k, of new_position] obtain l' xs' where
    l': "reorder ident i new_position ?l = Inr l'"
    "represents l' xs' (move (length (takeWhile (\<lambda>x. ident x \<noteq> i) (get_all ?l)))
        (clamp_position (length (get_all ?l)) new_position) (get_all ?l))" by blast
  from l'(1) closed_ring_represents [OF l'(2)] get_all_represents [OF l'(2)]
  show "\<exists>l'. reorder ident i new_position ?l = Inr l' \<and> closed_ring l' \<and>
      get_all l' = move (length (takeWhile (\<lambda>x. ident x \<noteq> i) (get_all ?l)))
          (clamp_position (length (get_all ?l)) new_position) (get_all ?l)" by blast
next
  assume "new_position < 0"
  then show "clamp_position (length (get_all (run_ops key_fn ident ops))) new_position = 0"
    by (simp add: clamp_position_def)
next
  assume "int (length (get_all (run_ops key_fn ident ops))) \<le> new_position"
  then show "clamp_position (length (get_all (run_ops key_fn ident ops))) new_position =
        length (get_all (run_ops key_fn ident ops)) - 1"
    by (simp add: clamp_position_def)
qed

lemma get_all_three_added: "get_all three_added = [tokyo, paris, london]"
  by (simp add: three_added_def get_all_run_ops)


lemma favourite_ids:
  "fav_id tokyo \<noteq> fav_id paris" "fav_id tokyo \<noteq> fav_id london" "fav_id paris \<noteq> fav_id london"
  by (simp_all add: tokyo_def paris_def london_def)

theorem navigation_wraps_witness:
  "get_all three_added = [tokyo, paris, london] \<and>
   get_next (\<lambda>x. fav_id x = fav_id london) three_added = Inr tokyo \<and>
   get_previous (\<lambda>x. fav_id x = fav_id tokyo) three_added = Inr london \<and>
   get_next (\<lambda>x. fav_id x = fav_id tokyo) (run_ops fav_order fav_id [InsertAtEnd tokyo]) = Inr tokyo \<and>
   get_previous (\<lambda>x. fav_id x = fav_id tokyo) (run_ops fav_order fav_id [InsertAtEnd tokyo]) =
     Inr tokyo \<and>
   get_next (\<lambda>x. fav_id x = fav_id tokyo)
     (run_ops fav_order fav_id [InsertAtEnd tokyo, Delete (\<lambda>x. fav_id x = fav_id tokyo)]) =
     Inl EmptyCollection"
proof -
  note g = get_all_three_added
  have g1: "get_all (run_ops fav_order fav_id [InsertAtEnd tokyo]) = [tokyo]"
    by (simp add: get_all_run_ops)
  have g0: "get_all (run_ops fav_order fav_id
       [InsertAtEnd tokyo, Delete (\<lambda>x. fav_id x = fav_id tokyo)]) = []"
    by (simp add: get_all_run_ops)
  from navigation_wraps [of fav_order fav_id
      "[InsertAtEnd tokyo, InsertAtEnd paris, InsertAtEnd london]" "\<lambda>x. fav_id x = fav_id london"]
  have a: "get_next (\<lambda>x. fav_id x = fav_id london) three_added = Inr tokyo"
    unfolding three_added_def [symmetric] using g favourite_ids by simp
  from navigation_wraps [of fav_order fav_id
      "[InsertAtEnd tokyo, InsertAtEnd paris, InsertAtEnd london]" "\<lambda>x. fav_id x = fav_id tokyo"]
  have b: "get_previous (\<lambda>x. fav_id x = fav_id tokyo) three_added = Inr london"
    unfolding three_added_def [symmetric] using g by simp
  from navigation_wraps [of fav_order fav_id "[InsertAtEnd tokyo]" "\<lambda>x. fav_id x = fav_id tokyo"]
  have c: "get_next (\<lambda>x. fav_id x = fav_id tokyo) (run_ops fav_order fav_id [InsertAtEnd tokyo]) =
      Inr tokyo \<and>
    get_previous (\<lambda>x. fav_id x = fav_id tokyo) (run_ops fav_order fav_id [InsertAtEnd tokyo]) =
      Inr tokyo"
    using g1 by simp
  from navigation_wraps [of fav_order fav_id
      "[InsertAtEnd tokyo, Delete (\<lambda>x. fav_id x = fav_id tokyo)]" "\<lambda>x. fav_id x = fav_id tokyo"]
  have d: "get_next (\<lambda>x. fav_id x = fav_id tokyo)
     (run_ops fav_order fav_id [InsertAtEnd tokyo, Delete (\<lambda>x. fav_id x = fav_id tokyo)]) =
     Inl EmptyCollection"
    using g0 by simp
  from g a b c d show ?thesis by simp
qed

theorem reorder_clamps_witness:
  "(\<exists>l'. reorder fav_id (fav_id london) 0 three_added = Inr l' \<and>
         get_all l' = [london, tokyo, paris]) \<and>
   (\<exists>l'. reorder fav_id (fav_id tokyo) 7 three_added = Inr l' \<and>
         get_all l' = [paris, london, tokyo]) \<and>
   (\<exists>l'. reorder fav_id (fav_id paris) (- 4) three_added = Inr l' \<and>
         get_all l' = [paris, tokyo, london])"
proof -
  note g = get_all_three_added
  from reorder_clamps [of fav_id "fav_id london" fav_order
      "[InsertAtEnd tokyo, InsertAtEnd paris, InsertAtEnd london]" 0]
  have a: "\<exists>l'. reorder fav_id (fav_id london) 0 three_added = Inr l' \<and>
         get_all l' = [london, tokyo, paris]"
    unfolding three_added_def [symmetric] using g favourite_ids
    by (auto simp: move_def clamp_position_def)
  from reorder_clamps [of fav_id "fav_id tokyo" fav_order
      "[InsertAtEnd tokyo, InsertAtEnd paris, InsertAtEnd london]" 7]
  have b: "\<exists>l'. reorder fav_id (fav_id tokyo) 7 three_added = Inr l' \<and>
         get_all l' = [paris, london, tokyo]"
    unfolding three_added_def [symmetric] using g favourite_ids
    by (auto simp: move_def clamp_position_def)
  from reorder_clamps [of fav_id "fav_id paris" fav_order
      "[InsertAtEnd tokyo, InsertAtEnd paris, InsertAtEnd london]" "- 4"]
  have c: "\<exists>l'. reorder fav_id (fav_id paris) (- 4) three_added = Inr l' \<and>
         get_all l' = [paris, tokyo, london]"
    unfolding three_added_def [symmetric] using g favourite_ids
    by (auto simp: move_def clamp_position_def)
  from a b c show ?thesis by blast
qed

end
